theory Spec2Isabelle
  imports Main "HOL-Library.Product_Lexorder" "HOL-Library.Extended_Nat"
begin

section \<open>Python values used by the graph laboratory code\<close>

text \<open>
  The repository is Python. Exceptions are values of \<open>py_error\<close>; a computation that may
  raise returns \<open>py_error + 'a\<close> (\<open>Inl\<close> the exception). \<open>RecursionError\<close> is what the
  interpreter raises at a call that would nest deeper than its recursion limit allows.
  Floats are idealised: a finite float is an exact real number, \<open>float("inf")\<close> is \<open>PInf\<close>.
  Rounding, \<open>-inf\<close> and \<open>nan\<close> are outside this model.
\<close>

datatype py_error = IndexError | KeyError | TypeError | RecursionError

datatype pyfloat = Fin real | PInf

instantiation pyfloat :: linorder
begin

definition less_eq_pyfloat :: "pyfloat \<Rightarrow> pyfloat \<Rightarrow> bool" where
  "less_eq_pyfloat x y =
     (case y of PInf \<Rightarrow> True | Fin b \<Rightarrow> (case x of PInf \<Rightarrow> False | Fin a \<Rightarrow> a \<le> b))"

definition less_pyfloat :: "pyfloat \<Rightarrow> pyfloat \<Rightarrow> bool" where
  "less_pyfloat x y =
     (case x of PInf \<Rightarrow> False | Fin a \<Rightarrow> (case y of PInf \<Rightarrow> True | Fin b \<Rightarrow> a < b))"

instance
proof
  fix x y z :: pyfloat
  show "(x < y) = (x \<le> y \<and> \<not> y \<le> x)"
    by (cases x; cases y) (auto simp: less_eq_pyfloat_def less_pyfloat_def)
  show "x \<le> x"
    by (cases x) (auto simp: less_eq_pyfloat_def)
  show "x \<le> y \<Longrightarrow> y \<le> z \<Longrightarrow> x \<le> z"
    by (cases x; cases y; cases z) (auto simp: less_eq_pyfloat_def)
  show "x \<le> y \<Longrightarrow> y \<le> x \<Longrightarrow> x = y"
    by (cases x; cases y) (auto simp: less_eq_pyfloat_def)
  show "x \<le> y \<or> y \<le> x"
    by (cases x; cases y) (auto simp: less_eq_pyfloat_def)
qed

end

text \<open>Float addition and subtraction on the modelled values (\<open>inf + x = inf\<close>,
  \<open>inf - x = inf\<close> for finite \<open>x\<close>). Subtracting \<open>inf\<close> gives \<open>-inf\<close> or \<open>nan\<close> in Python;
  no computation below reaches that case with finite inputs.\<close>

fun fadd :: "pyfloat \<Rightarrow> pyfloat \<Rightarrow> pyfloat" where
  "fadd (Fin a) (Fin b) = Fin (a + b)"
| "fadd _ _ = PInf"

fun fsub :: "pyfloat \<Rightarrow> pyfloat \<Rightarrow> pyfloat" where
  "fsub (Fin a) (Fin b) = Fin (a - b)"
| "fsub PInf (Fin b) = PInf"
| "fsub x PInf = x"

text \<open>List indexing as Python does it: a negative index counts from the end, anything
  outside \<open>[-len, len)\<close> raises \<open>IndexError\<close>.\<close>

definition py_index :: "nat \<Rightarrow> int \<Rightarrow> nat option" where
  "py_index len i =
     (if 0 \<le> i \<and> i < int len then Some (nat i)
      else if i < 0 \<and> - int len \<le> i then Some (nat (i + int len))
      else None)"

definition py_get :: "'a list \<Rightarrow> int \<Rightarrow> py_error + 'a" where
  "py_get xs i = (case py_index (length xs) i of
                    None \<Rightarrow> Inl IndexError
                  | Some k \<Rightarrow> Inr (xs ! k))"

definition py_set :: "'a list \<Rightarrow> int \<Rightarrow> 'a \<Rightarrow> py_error + 'a list" where
  "py_set xs i v = (case py_index (length xs) i of
                      None \<Rightarrow> Inl IndexError
                    | Some k \<Rightarrow> Inr (xs[k := v]))"

definition py_pop :: "'a list \<Rightarrow> int \<Rightarrow> py_error + 'a list" where
  "py_pop xs i = (case py_index (length xs) i of
                    None \<Rightarrow> Inl IndexError
                  | Some k \<Rightarrow> Inr (take k xs @ drop (Suc k) xs))"

text \<open>\<open>[x] * k\<close> (empty for \<open>k \<le> 0\<close>) and \<open>range(a, b)\<close>.\<close>

definition py_replicate :: "int \<Rightarrow> 'a \<Rightarrow> 'a list" where
  "py_replicate k x = replicate (nat k) x"

definition py_range :: "int \<Rightarrow> int \<Rightarrow> int list" where
  "py_range a b = [a..b - 1]"

section \<open>GraphStore: the adjacency-matrix graph of \<open>src/3/graph.py\<close>\<close>

datatype GraphOrientationType = DIRECTED | UNDIRECTED

text \<open>Class \<open>Graph\<close>: field \<open>gn\<close> is \<open>self.n\<close>, \<open>adj_matrix\<close> is the list of rows,
  \<open>None\<close> meaning no edge.\<close>

record Graph =
  graph_type :: GraphOrientationType
  gn :: int
  adj_matrix :: "pyfloat option list list"

type_synonym matrix = "pyfloat option list list"

text \<open>\<open>m[a][b] = v\<close>: the row lookup and the store into the row can each raise.\<close>

definition set_entry :: "matrix \<Rightarrow> int \<Rightarrow> int \<Rightarrow> pyfloat option \<Rightarrow> py_error + matrix" where
  "set_entry m a b v =
     (case py_index (length m) a of
        None \<Rightarrow> Inl IndexError
      | Some i \<Rightarrow> (case py_set (m ! i) b v of
                     Inl e \<Rightarrow> Inl e
                   | Inr row \<Rightarrow> Inr (m[i := row])))"

definition get_entry :: "matrix \<Rightarrow> int \<Rightarrow> int \<Rightarrow> py_error + pyfloat option" where
  "get_entry m a b =
     (case py_get m a of
        Inl e \<Rightarrow> Inl e
      | Inr row \<Rightarrow> py_get row b)"

text \<open>\<open>Graph(size=k, graph_type=t)\<close>: a \<open>k \<times> k\<close> matrix of \<open>None\<close> with \<open>0.0\<close> on the
  diagonal. The diagonal stores are in range by construction.\<close>

definition init_matrix :: "int \<Rightarrow> matrix" where
  "init_matrix k =
     fold (\<lambda>i m. m[nat i := (m ! nat i)[nat i := Some (Fin 0)]])
          (py_range 0 k)
          (map (\<lambda>_. py_replicate k None) (py_range 0 k))"

definition Graph_init :: "GraphOrientationType \<Rightarrow> int \<Rightarrow> Graph" where
  "Graph_init t k = \<lparr>graph_type = t, gn = k, adj_matrix = init_matrix k\<rparr>"

text \<open>\<open>Graph(path, t)\<close> after parsing: the first line gave \<open>k\<close>, the others the triples
  \<open>(a, b, w)\<close>. An exception leaves no object.\<close>

fun load_edges :: "GraphOrientationType \<Rightarrow> matrix \<Rightarrow> (int \<times> int \<times> pyfloat) list
                     \<Rightarrow> py_error + matrix" where
  "load_edges t m [] = Inr m"
| "load_edges t m ((a_i, b_i, w) # es) =
     (case set_entry m a_i b_i (Some w) of
        Inl e \<Rightarrow> Inl e
      | Inr m1 \<Rightarrow>
          (if t = UNDIRECTED
           then (case set_entry m1 b_i a_i (Some w) of
                   Inl e \<Rightarrow> Inl e
                 | Inr m2 \<Rightarrow> load_edges t m2 es)
           else load_edges t m1 es))"

definition Graph_load :: "GraphOrientationType \<Rightarrow> int \<Rightarrow> (int \<times> int \<times> pyfloat) list
                            \<Rightarrow> py_error + Graph" where
  "Graph_load t k es =
     (case load_edges t (init_matrix k) es of
        Inl e \<Rightarrow> Inl e
      | Inr m \<Rightarrow> Inr \<lparr>graph_type = t, gn = k, adj_matrix = m\<rparr>)"

definition graph_size :: "Graph \<Rightarrow> int" where
  "graph_size g = gn g"

text \<open>\<open>Graph.weight\<close>: the guard, then the two list reads; falling off the end of the
  method returns \<open>None\<close>.\<close>

definition weight :: "Graph \<Rightarrow> int \<Rightarrow> int \<Rightarrow> py_error + pyfloat option" where
  "weight g a_i b_i =
     (if 0 \<le> a_i \<and> a_i < gn g \<and> 0 \<le> b_i \<and> b_i < gn g
      then get_entry (adj_matrix g) a_i b_i
      else Inr None)"

definition is_edge :: "Graph \<Rightarrow> int \<Rightarrow> int \<Rightarrow> py_error + bool" where
  "is_edge g a_i b_i =
     (case weight g a_i b_i of
        Inl e \<Rightarrow> Inl e
      | Inr w \<Rightarrow> Inr (w \<noteq> None \<and> a_i \<noteq> b_i))"

text \<open>The mutators return the graph as the call leaves it, together with the exception
  if one was raised (the interactive shell catches exceptions and keeps the object).\<close>

fun append_rows :: "matrix \<Rightarrow> int list \<Rightarrow> int \<Rightarrow> matrix \<times> py_error option" where
  "append_rows m [] new_size = (m, None)"
| "append_rows m (i # ids) new_size =
     (case py_set (py_replicate new_size None) i (Some (Fin 0)) of
        Inl e \<Rightarrow> (m, Some e)
      | Inr new_row \<Rightarrow> append_rows (m @ [new_row]) ids new_size)"

definition add_vertex :: "Graph \<Rightarrow> int \<Rightarrow> Graph \<times> py_error option" where
  "add_vertex g a_i =
     (if a_i < gn g then (g, None)
      else
        let new_size = a_i + 1;
            m1 = map (\<lambda>row. row @ py_replicate (new_size - gn g) None) (adj_matrix g)
        in (case append_rows m1 (py_range (gn g) new_size) new_size of
              (m2, Some e) \<Rightarrow> (g\<lparr>adj_matrix := m2\<rparr>, Some e)
            | (m2, None) \<Rightarrow> (g\<lparr>gn := new_size, adj_matrix := m2\<rparr>, None)))"

definition add_edge :: "Graph \<Rightarrow> int \<Rightarrow> int \<Rightarrow> pyfloat \<Rightarrow> Graph \<times> py_error option" where
  "add_edge g a_i b_i w =
     (let highest_vert = max a_i b_i;
          r = (if highest_vert \<ge> gn g then add_vertex g highest_vert else (g, None));
          g1 = fst r
      in (case snd r of
            Some e \<Rightarrow> (g1, Some e)
          | None \<Rightarrow>
              (case set_entry (adj_matrix g1) a_i b_i (Some w) of
                 Inl e \<Rightarrow> (g1, Some e)
               | Inr m1 \<Rightarrow>
                   (if graph_type g1 = UNDIRECTED
                    then (case set_entry m1 b_i a_i (Some w) of
                            Inl e \<Rightarrow> (g1\<lparr>adj_matrix := m1\<rparr>, Some e)
                          | Inr m2 \<Rightarrow> (g1\<lparr>adj_matrix := m2\<rparr>, None))
                    else (g1\<lparr>adj_matrix := m1\<rparr>, None)))))"

fun pop_column :: "matrix \<Rightarrow> int \<Rightarrow> matrix \<times> py_error option" where
  "pop_column [] a_i = ([], None)"
| "pop_column (row # rows) a_i =
     (case py_pop row a_i of
        Inl e \<Rightarrow> (row # rows, Some e)
      | Inr row1 \<Rightarrow> (case pop_column rows a_i of (rows1, e) \<Rightarrow> (row1 # rows1, e)))"

definition remove_vertex :: "Graph \<Rightarrow> int \<Rightarrow> Graph \<times> py_error option" where
  "remove_vertex g a_i =
     (if \<not> (0 \<le> a_i \<and> a_i < gn g) then (g, None)
      else (case py_pop (adj_matrix g) a_i of
              Inl e \<Rightarrow> (g, Some e)
            | Inr m1 \<Rightarrow>
                (case pop_column m1 a_i of
                   (m2, Some e) \<Rightarrow> (g\<lparr>adj_matrix := m2\<rparr>, Some e)
                 | (m2, None) \<Rightarrow> (g\<lparr>gn := gn g - 1, adj_matrix := m2\<rparr>, None))))"

definition remove_edge :: "Graph \<Rightarrow> int \<Rightarrow> int \<Rightarrow> Graph \<times> py_error option" where
  "remove_edge g a_i b_i =
     (if \<not> (0 \<le> a_i \<and> a_i < gn g \<and> 0 \<le> b_i \<and> b_i < gn g) then (g, None)
      else (case set_entry (adj_matrix g) a_i b_i None of
              Inl e \<Rightarrow> (g, Some e)
            | Inr m1 \<Rightarrow>
                (if graph_type g = UNDIRECTED
                 then (case set_entry m1 b_i a_i None of
                         Inl e \<Rightarrow> (g\<lparr>adj_matrix := m1\<rparr>, Some e)
                       | Inr m2 \<Rightarrow> (g\<lparr>adj_matrix := m2\<rparr>, None))
                 else (g\<lparr>adj_matrix := m1\<rparr>, None))))"

text \<open>A command of the shell and the graph it leaves behind.\<close>

datatype graph_op =
    AddVertex int
  | AddEdge int int pyfloat
  | RemoveVertex int
  | RemoveEdge int int

fun apply_op :: "Graph \<Rightarrow> graph_op \<Rightarrow> Graph" where
  "apply_op g (AddVertex a) = fst (add_vertex g a)"
| "apply_op g (AddEdge a b w) = fst (add_edge g a b w)"
| "apply_op g (RemoveVertex a) = fst (remove_vertex g a)"
| "apply_op g (RemoveEdge a b) = fst (remove_edge g a b)"

definition run_ops :: "Graph \<Rightarrow> graph_op list \<Rightarrow> Graph" where
  "run_ops g ops = foldl apply_op g ops"

text \<open>The representation invariant: a non-negative vertex count and a square matrix of
  that size.\<close>

definition wf_graph :: "Graph \<Rightarrow> bool" where
  "wf_graph g \<longleftrightarrow>
     0 \<le> gn g \<and> length (adj_matrix g) = nat (gn g) \<and>
     list_all (\<lambda>row. length row = nat (gn g)) (adj_matrix g)"

definition symmetric :: "Graph \<Rightarrow> bool" where
  "symmetric g \<longleftrightarrow>
     (\<forall>i j. 0 \<le> i \<and> i < gn g \<and> 0 \<le> j \<and> j < gn g \<longrightarrow>
        adj_matrix g ! nat i ! nat j = adj_matrix g ! nat j ! nat i)"

text \<open>Auxiliary notions for the proofs about the matrix: a square matrix of a given
  size, symmetry of its entries, the matrix \<open>add_vertex\<close> builds, a list without its
  \<open>k\<close>-th element, and the invariant of the store.\<close>

definition square :: "matrix \<Rightarrow> nat \<Rightarrow> bool" where
  "square m N \<longleftrightarrow> length m = N \<and> (\<forall>row \<in> set m. length row = N)"

definition sym_m :: "matrix \<Rightarrow> nat \<Rightarrow> bool" where
  "sym_m m N \<longleftrightarrow> (\<forall>i<N. \<forall>j<N. m ! i ! j = m ! j ! i)"

definition grow :: "matrix \<Rightarrow> int \<Rightarrow> int \<Rightarrow> matrix" where
  "grow m k a = map (\<lambda>row. row @ replicate (nat (a + 1 - k)) None) m @
                map (\<lambda>i. (replicate (nat (a + 1)) None)[nat i := Some (Fin 0)]) [k..a]"

definition drop_at :: "nat \<Rightarrow> 'a list \<Rightarrow> 'a list" where
  "drop_at k xs = take k xs @ drop (Suc k) xs"

definition inv_u :: "Graph \<Rightarrow> bool" where
  "inv_u g \<longleftrightarrow>
     wf_graph g \<and> (graph_type g = UNDIRECTED \<longrightarrow> sym_m (adj_matrix g) (nat (gn g)))"

text \<open>A directed graph on two vertices with the arc \<open>0 \<rightarrow> 1\<close> of weight 5.\<close>

definition G_edge :: Graph where
  "G_edge = \<lparr>graph_type = DIRECTED, gn = 2,
             adj_matrix = [[Some (Fin 0), Some (Fin 5)], [None, Some (Fin 0)]]\<rparr>"

section \<open>ShortestPath and MinimumSpanningTree: \<open>dijkstra\<close>, \<open>dijkstra_all\<close>, \<open>prim\<close>\<close>

text \<open>
  \<open>heapq\<close> on a list of tuples. The tuples are totally ordered (lexicographically), so
  the only thing a caller observes is that \<open>heappop\<close> removes and returns the least
  entry; the queue is kept as the list of its entries.
\<close>

definition heappush :: "'a list \<Rightarrow> 'a \<Rightarrow> 'a list" where
  "heappush q x = q @ [x]"

definition heappop :: "'a::linorder list \<Rightarrow> 'a \<times> 'a list" where
  "heappop q = (let m = min_list q in (m, remove1 m q))"

text \<open>The local state of the three searches: the tentative distances (or edge
  weights), the parent pointers and the queue. The arrays have length \<open>n\<close>, and every
  index into them is the guarded \<open>start\<close> or comes from \<open>range(n)\<close>.\<close>

type_synonym search_state = "pyfloat list \<times> int option list \<times> (pyfloat \<times> int) list"

text \<open>The \<open>for u in range(n)\<close> loop of \<open>dijkstra\<close> and \<open>dijkstra_all\<close>.\<close>

fun relax :: "Graph \<Rightarrow> int \<Rightarrow> int list \<Rightarrow> search_state \<Rightarrow> py_error + search_state" where
  "relax g v [] s = Inr s"
| "relax g v (u # us) (dists, prev, queue) =
     (case weight g v u of
        Inl e \<Rightarrow> Inl e
      | Inr w \<Rightarrow>
          (if w \<noteq> None \<and> v \<noteq> u
           then (let new_dist = fadd (dists ! nat v) (the w)
                 in if new_dist < dists ! nat u
                    then relax g v us (dists[nat u := new_dist], prev[nat u := Some v],
                                       heappush queue (new_dist, u))
                    else relax g v us (dists, prev, queue))
           else relax g v us (dists, prev, queue)))"

text \<open>The \<open>while queue\<close> loop of \<open>dijkstra\<close>, with its early exit at \<open>end\<close>. A loop that
  does not end has the value \<open>None\<close>.\<close>

partial_function (option) dijkstra_loop ::
    "Graph \<Rightarrow> int \<Rightarrow> search_state \<Rightarrow> (py_error + search_state) option" where
  "dijkstra_loop g end_v s =
     (case s of (dists, prev, queue) \<Rightarrow>
        if queue = [] then Some (Inr s)
        else (case heappop queue of ((cur_dist, v), queue1) \<Rightarrow>
                if cur_dist > dists ! nat v then dijkstra_loop g end_v (dists, prev, queue1)
                else if v = end_v then Some (Inr (dists, prev, queue1))
                else (case relax g v (py_range 0 (graph_size g)) (dists, prev, queue1) of
                        Inl e \<Rightarrow> Some (Inl e)
                      | Inr s1 \<Rightarrow> dijkstra_loop g end_v s1)))"

declare dijkstra_loop.simps [code]

text \<open>Walking the parent pointers: \<open>while current is not None\<close>.\<close>

partial_function (option) walk_prev ::
    "int option list \<Rightarrow> int option \<Rightarrow> int list \<Rightarrow> int list option" where
  "walk_prev prev current path =
     (case current of
        None \<Rightarrow> Some path
      | Some c \<Rightarrow> walk_prev prev (prev ! nat c) (path @ [c]))"

declare walk_prev.simps [code]

definition dijkstra ::
    "Graph \<Rightarrow> int \<Rightarrow> int \<Rightarrow> (py_error + pyfloat option \<times> int list) option" where
  "dijkstra g start end_v =
     (let n = graph_size g in
      if \<not> (0 \<le> start \<and> start < n \<and> 0 \<le> end_v \<and> end_v < n) then Some (Inr (None, []))
      else
        (case dijkstra_loop g end_v
                ((py_replicate n PInf)[nat start := Fin 0], py_replicate n None,
                 [(Fin 0, start)]) of
           None \<Rightarrow> None
         | Some (Inl e) \<Rightarrow> Some (Inl e)
         | Some (Inr (dists, prev, queue)) \<Rightarrow>
             if dists ! nat end_v = PInf then Some (Inr (Some PInf, []))
             else (case walk_prev prev (Some end_v) [] of
                     None \<Rightarrow> None
                   | Some path \<Rightarrow> Some (Inr (Some (dists ! nat end_v), rev path)))))"

partial_function (option) dijkstra_all_loop ::
    "Graph \<Rightarrow> search_state \<Rightarrow> (py_error + search_state) option" where
  "dijkstra_all_loop g s =
     (case s of (dists, prev, queue) \<Rightarrow>
        if queue = [] then Some (Inr s)
        else (case heappop queue of ((cur_dist, v), queue1) \<Rightarrow>
                if cur_dist > dists ! nat v then dijkstra_all_loop g (dists, prev, queue1)
                else (case relax g v (py_range 0 (graph_size g)) (dists, prev, queue1) of
                        Inl e \<Rightarrow> Some (Inl e)
                      | Inr s1 \<Rightarrow> dijkstra_all_loop g s1)))"

declare dijkstra_all_loop.simps [code]

text \<open>The \<open>for end in range(n)\<close> loop that rebuilds every path; there is no test for
  an infinite distance here.\<close>

fun all_paths :: "pyfloat list \<Rightarrow> int option list \<Rightarrow> int list
                    \<Rightarrow> (pyfloat \<times> int list) list option" where
  "all_paths dists prev [] = Some []"
| "all_paths dists prev (end_v # ends) =
     (case walk_prev prev (Some end_v) [] of
        None \<Rightarrow> None
      | Some path \<Rightarrow>
          (case all_paths dists prev ends of
             None \<Rightarrow> None
           | Some rest \<Rightarrow> Some ((dists ! nat end_v, rev path) # rest)))"

definition dijkstra_all ::
    "Graph \<Rightarrow> int \<Rightarrow> (py_error + (pyfloat \<times> int list) list) option" where
  "dijkstra_all g start =
     (let n = graph_size g in
      if \<not> (0 \<le> start \<and> start < n) then Some (Inr [])
      else
        (case dijkstra_all_loop g
                ((py_replicate n PInf)[nat start := Fin 0], py_replicate n None,
                 [(Fin 0, start)]) of
           None \<Rightarrow> None
         | Some (Inl e) \<Rightarrow> Some (Inl e)
         | Some (Inr (dists, prev, queue)) \<Rightarrow>
             (case all_paths dists prev (py_range 0 n) of
                None \<Rightarrow> None
              | Some result_paths \<Rightarrow> Some (Inr result_paths))))"

text \<open>\<open>x or float("inf")\<close>: Python takes the right operand when the left one is falsy,
  and both \<open>None\<close> and \<open>0.0\<close> are falsy.\<close>

definition or_inf :: "pyfloat option \<Rightarrow> pyfloat" where
  "or_inf w = (case w of None \<Rightarrow> PInf | Some x \<Rightarrow> if x = Fin 0 then PInf else x)"

text \<open>The weight \<open>prim\<close> considers between \<open>v\<close> and \<open>u\<close>:
  \<open>min(graph.weight(v, u) or float("inf"), graph.weight(u, v) or float("inf"))\<close>.\<close>

definition min_weight :: "Graph \<Rightarrow> int \<Rightarrow> int \<Rightarrow> py_error + pyfloat" where
  "min_weight g v u =
     (case weight g v u of
        Inl e \<Rightarrow> Inl e
      | Inr w1 \<Rightarrow> (case weight g u v of
                     Inl e \<Rightarrow> Inl e
                   | Inr w2 \<Rightarrow> Inr (min (or_inf w1) (or_inf w2))))"

fun prim_scan :: "Graph \<Rightarrow> int \<Rightarrow> int list \<Rightarrow> search_state \<Rightarrow> py_error + search_state" where
  "prim_scan g v [] s = Inr s"
| "prim_scan g v (u # us) (min_edge, prev, queue) =
     (if v = u then prim_scan g v us (min_edge, prev, queue)
      else (case min_weight g v u of
              Inl e \<Rightarrow> Inl e
            | Inr mw \<Rightarrow>
                if mw \<noteq> PInf \<and> min_edge ! nat u > mw
                then prim_scan g v us (min_edge[nat u := mw], prev[nat u := Some v],
                                       heappush queue (mw, u))
                else prim_scan g v us (min_edge, prev, queue)))"

partial_function (option) prim_loop ::
    "Graph \<Rightarrow> search_state \<Rightarrow> (py_error + search_state) option" where
  "prim_loop g s =
     (case s of (min_edge, prev, queue) \<Rightarrow>
        if queue = [] then Some (Inr s)
        else (case heappop queue of ((cur_weight, v), queue1) \<Rightarrow>
                if cur_weight > min_edge ! nat v then prim_loop g (min_edge, prev, queue1)
                else (case prim_scan g v (py_range 0 (graph_size g)) (min_edge, prev, queue1) of
                        Inl e \<Rightarrow> Some (Inl e)
                      | Inr s1 \<Rightarrow> prim_loop g s1)))"

declare prim_loop.simps [code]

fun prim_paths :: "int option list \<Rightarrow> int list \<Rightarrow> int list list option" where
  "prim_paths prev [] = Some []"
| "prim_paths prev (end_v # ends) =
     (case walk_prev prev (Some end_v) [] of
        None \<Rightarrow> None
      | Some path \<Rightarrow>
          (case prim_paths prev ends of
             None \<Rightarrow> None
           | Some rest \<Rightarrow> Some (rev path # rest)))"

definition prim :: "Graph \<Rightarrow> int \<Rightarrow> (py_error + int list list) option" where
  "prim g start =
     (let n = graph_size g in
      if \<not> (0 \<le> start \<and> start < n) then Some (Inr [])
      else
        (case prim_loop g
                ((py_replicate n PInf)[nat start := Fin 0], py_replicate n None,
                 [(Fin 0, start)]) of
           None \<Rightarrow> None
         | Some (Inl e) \<Rightarrow> Some (Inl e)
         | Some (Inr (min_edge, prev, queue)) \<Rightarrow>
             (case prim_paths prev (py_range 0 n) of
                None \<Rightarrow> None
              | Some result_paths \<Rightarrow> Some (Inr result_paths))))"

text \<open>A directed graph on two vertices whose only arc, \<open>0 \<rightarrow> 1\<close>, has weight \<open>0.0\<close>.\<close>

definition G_zero :: Graph where
  "G_zero = \<lparr>graph_type = DIRECTED, gn = 2,
             adj_matrix = [[Some (Fin 0), Some (Fin 0)], [None, Some (Fin 0)]]\<rparr>"

section \<open>MaxFlow: \<open>edmonds_karp\<close> of \<open>src/lab4/flow.py\<close>\<close>

text \<open>The dataclass \<open>FlowEdge(to, rev_i, capacity, flow)\<close> and its property
  \<open>residual_capacity\<close>.\<close>

record FlowEdge =
  to :: int
  rev_i :: int
  capacity :: pyfloat
  flow :: pyfloat

definition residual_capacity :: "FlowEdge \<Rightarrow> pyfloat" where
  "residual_capacity e = fsub (capacity e) (flow e)"

type_synonym WeightedEdge = "int \<times> int \<times> pyfloat"

text \<open>
  The residual network is a list of adjacency lists of edge objects. The lists only grow
  by appending, so an edge object is identified by the adjacency list that holds it and
  its position there; \<open>forward_edges\<close> and the BFS parents hold such references, and a
  mutation of an edge is an update at its reference.
\<close>

type_synonym flow_graph = "FlowEdge list list"
type_synonym edge_ref = "nat \<times> nat"

definition edge_at :: "flow_graph \<Rightarrow> edge_ref \<Rightarrow> FlowEdge" where
  "edge_at graph r = graph ! fst r ! snd r"

text \<open>\<open>graph[v].append(e)\<close>, returning the reference of the appended object.\<close>

definition append_edge :: "flow_graph \<Rightarrow> int \<Rightarrow> FlowEdge \<Rightarrow> py_error + flow_graph \<times> edge_ref" where
  "append_edge graph v e =
     (case py_index (length graph) v of
        None \<Rightarrow> Inl IndexError
      | Some i \<Rightarrow> Inr (graph[i := graph ! i @ [e]], (i, length (graph ! i))))"

text \<open>The \<open>for e in edges\<close> loop that builds the residual network (both \<open>len\<close> calls
  come before both appends).\<close>

fun add_edges :: "flow_graph \<Rightarrow> edge_ref list \<Rightarrow> WeightedEdge list
                    \<Rightarrow> py_error + flow_graph \<times> edge_ref list" where
  "add_edges graph forward_edges [] = Inr (graph, forward_edges)"
| "add_edges graph forward_edges ((v, u, cap) # es) =
     (case py_get graph v of
        Inl e \<Rightarrow> Inl e
      | Inr gv \<Rightarrow>
          (let forward_edge = \<lparr>to = v, rev_i = int (length gv), capacity = cap, flow = Fin 0\<rparr>
           in case py_get graph u of
                Inl e \<Rightarrow> Inl e
              | Inr gu \<Rightarrow>
                  (let backward_edge =
                         \<lparr>to = u, rev_i = int (length gu), capacity = Fin 0, flow = Fin 0\<rparr>
                   in case append_edge graph v forward_edge of
                        Inl e \<Rightarrow> Inl e
                      | Inr (graph1, fref) \<Rightarrow>
                          (case append_edge graph1 u backward_edge of
                             Inl e \<Rightarrow> Inl e
                           | Inr (graph2, bref) \<Rightarrow>
                               add_edges graph2 (forward_edges @ [fref]) es))))"

definition residual_network :: "int \<Rightarrow> WeightedEdge list
                                  \<Rightarrow> py_error + flow_graph \<times> edge_ref list" where
  "residual_network n edges = add_edges (map (\<lambda>_. []) (py_range 0 n)) [] edges"

text \<open>The edge reached from \<open>edge\<close> by its twin index: \<open>graph[edge.to][edge.rev_i]\<close>.\<close>

definition twin :: "flow_graph \<Rightarrow> FlowEdge \<Rightarrow> py_error + FlowEdge" where
  "twin graph edge =
     (case py_get graph (to edge) of
        Inl e \<Rightarrow> Inl e
      | Inr row \<Rightarrow> py_get row (rev_i edge))"

type_synonym parents = "(int \<times> edge_ref) option list"

text \<open>The \<open>for edge in graph[v]\<close> loop of the BFS; \<open>row\<close> is the position of the list
  \<open>graph[v]\<close> and \<open>i\<close> the position of \<open>edge\<close> in it.\<close>

fun bfs_edges :: "int \<Rightarrow> int \<Rightarrow> nat \<Rightarrow> nat \<Rightarrow> FlowEdge list \<Rightarrow> parents \<Rightarrow> int list
                    \<Rightarrow> py_error + parents \<times> int list" where
  "bfs_edges source v row i [] parent queue = Inr (parent, queue)"
| "bfs_edges source v row i (edge # es) parent queue =
     (if residual_capacity edge \<le> Fin 0 then bfs_edges source v row (Suc i) es parent queue
      else (case py_get parent (to edge) of
              Inl e \<Rightarrow> Inl e
            | Inr p \<Rightarrow>
                if p \<noteq> None \<or> to edge = source
                then bfs_edges source v row (Suc i) es parent queue
                else (case py_set parent (to edge) (Some (v, (row, i))) of
                        Inl e \<Rightarrow> Inl e
                      | Inr parent1 \<Rightarrow>
                          bfs_edges source v row (Suc i) es parent1 (queue @ [to edge]))))"

text \<open>\<open>while queue and parent[sink] is None\<close>.\<close>

partial_function (option) bfs_loop ::
    "flow_graph \<Rightarrow> int \<Rightarrow> int \<Rightarrow> parents \<Rightarrow> int list \<Rightarrow> (py_error + parents) option" where
  "bfs_loop graph source sink parent queue =
     (if queue \<noteq> [] \<and> parent ! nat sink = None
      then (case py_index (length graph) (hd queue) of
              None \<Rightarrow> Some (Inl IndexError)
            | Some row \<Rightarrow>
                (case bfs_edges source (hd queue) row 0 (graph ! row) parent (tl queue) of
                   Inl e \<Rightarrow> Some (Inl e)
                 | Inr (parent1, queue1) \<Rightarrow> bfs_loop graph source sink parent1 queue1))
      else Some (Inr parent))"

declare bfs_loop.simps [code]

text \<open>The first walk from \<open>sink\<close> back to \<open>source\<close>: the bottleneck. Unpacking a
  \<open>None\<close> parent raises \<open>TypeError\<close>.\<close>

partial_function (option) bottleneck ::
    "flow_graph \<Rightarrow> parents \<Rightarrow> int \<Rightarrow> int \<Rightarrow> pyfloat \<Rightarrow> (py_error + pyfloat) option" where
  "bottleneck graph parent source cur path_flow =
     (if cur \<noteq> source
      then (case py_get parent cur of
              Inl e \<Rightarrow> Some (Inl e)
            | Inr None \<Rightarrow> Some (Inl TypeError)
            | Inr (Some (prev, r)) \<Rightarrow>
                bottleneck graph parent source prev
                  (min path_flow (residual_capacity (edge_at graph r))))
      else Some (Inr path_flow))"

declare bottleneck.simps [code]

definition set_flow :: "flow_graph \<Rightarrow> edge_ref \<Rightarrow> pyfloat \<Rightarrow> flow_graph" where
  "set_flow graph r x =
     graph[fst r := (graph ! fst r)[snd r := (edge_at graph r)\<lparr>flow := x\<rparr>]]"

text \<open>The second walk: \<open>edge.flow += path_flow\<close>, then
  \<open>graph[edge.to][edge.rev_i].flow -= path_flow\<close>.\<close>

partial_function (option) augment ::
    "flow_graph \<Rightarrow> parents \<Rightarrow> int \<Rightarrow> int \<Rightarrow> pyfloat \<Rightarrow> (py_error + flow_graph) option" where
  "augment graph parent source cur path_flow =
     (if cur \<noteq> source
      then (case py_get parent cur of
              Inl e \<Rightarrow> Some (Inl e)
            | Inr None \<Rightarrow> Some (Inl TypeError)
            | Inr (Some (prev, r)) \<Rightarrow>
                (let graph1 = set_flow graph r (fadd (flow (edge_at graph r)) path_flow);
                     edge = edge_at graph1 r
                 in case py_index (length graph1) (to edge) of
                      None \<Rightarrow> Some (Inl IndexError)
                    | Some trow \<Rightarrow>
                        (case py_index (length (graph1 ! trow)) (rev_i edge) of
                           None \<Rightarrow> Some (Inl IndexError)
                         | Some ti \<Rightarrow>
                             augment
                               (set_flow graph1 (trow, ti)
                                  (fsub (flow (edge_at graph1 (trow, ti))) path_flow))
                               parent source prev path_flow)))
      else Some (Inr graph))"

declare augment.simps [code]

text \<open>The \<open>while True\<close> loop: one BFS and one augmentation per round.\<close>

partial_function (option) flow_loop ::
    "int \<Rightarrow> int \<Rightarrow> int \<Rightarrow> flow_graph \<Rightarrow> pyfloat \<Rightarrow> (py_error + flow_graph \<times> pyfloat) option" where
  "flow_loop n source sink graph max_flow =
     (case bfs_loop graph source sink (py_replicate n None) [source] of
        None \<Rightarrow> None
      | Some (Inl e) \<Rightarrow> Some (Inl e)
      | Some (Inr parent) \<Rightarrow>
          if parent ! nat sink = None then Some (Inr (graph, max_flow))
          else (case bottleneck graph parent source sink PInf of
                  None \<Rightarrow> None
                | Some (Inl e) \<Rightarrow> Some (Inl e)
                | Some (Inr path_flow) \<Rightarrow>
                    (case augment graph parent source sink path_flow of
                       None \<Rightarrow> None
                     | Some (Inl e) \<Rightarrow> Some (Inl e)
                     | Some (Inr graph1) \<Rightarrow>
                         flow_loop n source sink graph1 (fadd max_flow path_flow))))"

declare flow_loop.simps [code]

text \<open>The result list reuses \<open>FlowEdge\<close> as a record of an input edge with its flow: the
  field \<open>to\<close> holds the edge's first vertex and \<open>rev_i\<close> its second.\<close>

definition edmonds_karp :: "int \<Rightarrow> WeightedEdge list \<Rightarrow> int \<Rightarrow> int
                              \<Rightarrow> (py_error + pyfloat \<times> FlowEdge list) option" where
  "edmonds_karp n edges source sink =
     (if n \<le> 0 \<or> \<not> (0 \<le> source \<and> source < n) \<or> \<not> (0 \<le> sink \<and> sink < n)
      then Some (Inr (Fin 0, []))
      else if source = sink
      then Some (Inr (Fin 0,
             map (\<lambda>e. \<lparr>to = fst e, rev_i = fst (snd e), capacity = snd (snd e), flow = Fin 0\<rparr>)
                 edges))
      else (case residual_network n edges of
              Inl e \<Rightarrow> Some (Inl e)
            | Inr (graph, forward_edges) \<Rightarrow>
                (case flow_loop n source sink graph (Fin 0) of
                   None \<Rightarrow> None
                 | Some (Inl e) \<Rightarrow> Some (Inl e)
                 | Some (Inr (graph1, max_flow)) \<Rightarrow>
                     Some (Inr (max_flow,
                       map (\<lambda>(orig_edge, r).
                              \<lparr>to = fst orig_edge, rev_i = fst (snd orig_edge),
                               capacity = snd (snd orig_edge),
                               flow = flow (edge_at graph1 r)\<rparr>)
                           (zip edges forward_edges))))))"

text \<open>The flow network of the specification's scenario 2.\<close>

definition scenario_edges :: "WeightedEdge list" where
  "scenario_edges = [(0, 1, Fin 3), (0, 2, Fin 2), (1, 3, Fin 2), (2, 3, Fin 3), (1, 2, Fin 1)]"

section \<open>GridPathfinder: \<open>a_star\<close> of \<open>src/lab4/pathfinding.py\<close>\<close>

type_synonym Coord = "int \<times> int"
type_synonym Grid = "int list list"
type_synonym HeuristicFunc = "Coord \<Rightarrow> Coord \<Rightarrow> real"

text \<open>The dataclass \<open>PathFindingResult\<close>; the field \<open>length\<close> is \<open>path_len\<close> here. The
  wall-clock field \<open>runtime_sec\<close> is left out.\<close>

record PathFindingResult =
  path_len :: pyfloat
  path :: "Coord list"
  visited_count :: int
  visited_percent :: real

definition manhattan :: HeuristicFunc where
  "manhattan a b = real_of_int (\<bar>fst a - fst b\<bar> + \<bar>snd a - snd b\<bar>)"

text \<open>\<open>math.hypot(dr, dc)\<close>, as the exact root.\<close>

definition euclidean :: HeuristicFunc where
  "euclidean a b =
     (let dr = fst a - fst b; dc = snd a - snd b
      in sqrt (real_of_int (dr * dr + dc * dc)))"

definition grid_rows :: "Grid \<Rightarrow> int" where
  "grid_rows grid = int (length grid)"

definition grid_cols :: "Grid \<Rightarrow> int" where
  "grid_cols grid = (if grid \<noteq> [] then int (length (hd grid)) else 0)"

definition in_bounds :: "Grid \<Rightarrow> int \<Rightarrow> int \<Rightarrow> bool" where
  "in_bounds grid r c \<longleftrightarrow> 0 \<le> r \<and> r < grid_rows grid \<and> 0 \<le> c \<and> c < grid_cols grid"

definition cell :: "Grid \<Rightarrow> int \<Rightarrow> int \<Rightarrow> py_error + int" where
  "cell grid r c =
     (case py_get grid r of
        Inl e \<Rightarrow> Inl e
      | Inr row \<Rightarrow> py_get row c)"

definition is_walkable :: "Grid \<Rightarrow> int \<Rightarrow> int \<Rightarrow> py_error + bool" where
  "is_walkable grid r c = (case cell grid r c of Inl e \<Rightarrow> Inl e | Inr x \<Rightarrow> Inr (x > 0))"

text \<open>\<open>sum(1 for r in range(rows) for c in range(cols) if is_walkable(r, c))\<close>.\<close>

fun count_walkable :: "Grid \<Rightarrow> Coord list \<Rightarrow> py_error + int" where
  "count_walkable grid [] = Inr 0"
| "count_walkable grid ((r, c) # cs) =
     (case is_walkable grid r c of
        Inl e \<Rightarrow> Inl e
      | Inr w \<Rightarrow> (case count_walkable grid cs of
                    Inl e \<Rightarrow> Inl e
                  | Inr k \<Rightarrow> Inr ((if w then 1 else 0) + k)))"

definition total_walkable :: "Grid \<Rightarrow> py_error + int" where
  "total_walkable grid =
     count_walkable grid
       (concat (map (\<lambda>r. map (\<lambda>c. (r, c)) (py_range 0 (grid_cols grid)))
                    (py_range 0 (grid_rows grid))))"

text \<open>The search state of \<open>a_star\<close>: the dictionaries \<open>dist\<close> and \<open>prev\<close>, the queue of
  \<open>(f_score, dist, coord)\<close> and \<open>visited_count\<close>. \<open>dist.get(c, math.inf)\<close> is
  \<open>dist_get\<close>.\<close>

type_synonym astar_state =
  "(Coord \<rightharpoonup> real) \<times> (Coord \<rightharpoonup> Coord) \<times> (real \<times> real \<times> Coord) list \<times> int"

definition dist_get :: "(Coord \<rightharpoonup> real) \<Rightarrow> Coord \<Rightarrow> pyfloat" where
  "dist_get dists c = (case dists c of None \<Rightarrow> PInf | Some d \<Rightarrow> Fin d)"

definition moves :: "Coord list" where
  "moves = [(1, 0), (- 1, 0), (0, 1), (0, - 1)]"

text \<open>The \<open>for dr, dc in moves\<close> loop.\<close>

fun expand :: "Grid \<Rightarrow> HeuristicFunc \<Rightarrow> Coord \<Rightarrow> Coord \<Rightarrow> real \<Rightarrow> Coord list
                 \<Rightarrow> (Coord \<rightharpoonup> real) \<times> (Coord \<rightharpoonup> Coord) \<times> (real \<times> real \<times> Coord) list
                 \<Rightarrow> py_error + (Coord \<rightharpoonup> real) \<times> (Coord \<rightharpoonup> Coord) \<times> (real \<times> real \<times> Coord) list" where
  "expand grid heuristic goal current current_dist [] s = Inr s"
| "expand grid heuristic goal current current_dist ((dr, dc) # ms) (dists, prev, queue) =
     (let nr = fst current + dr; nc = snd current + dc
      in if \<not> in_bounds grid nr nc
         then expand grid heuristic goal current current_dist ms (dists, prev, queue)
         else (case is_walkable grid nr nc of
                 Inl e \<Rightarrow> Inl e
               | Inr w \<Rightarrow>
                   if \<not> w then expand grid heuristic goal current current_dist ms (dists, prev, queue)
                   else (case cell grid nr nc of
                           Inl e \<Rightarrow> Inl e
                         | Inr step_cost \<Rightarrow>
                             (let new_dist = current_dist + real_of_int step_cost
                              in if Fin new_dist < dist_get dists (nr, nc)
                                 then expand grid heuristic goal current current_dist ms
                                        (dists((nr, nc) \<mapsto> new_dist),
                                         prev((nr, nc) \<mapsto> current),
                                         heappush queue
                                           (new_dist + heuristic (nr, nc) goal, new_dist, (nr, nc)))
                                 else expand grid heuristic goal current current_dist ms
                                        (dists, prev, queue)))))"

text \<open>The \<open>while queue\<close> loop.\<close>

partial_function (option) astar_loop ::
    "Grid \<Rightarrow> HeuristicFunc \<Rightarrow> Coord \<Rightarrow> astar_state \<Rightarrow> (py_error + astar_state) option" where
  "astar_loop grid heuristic goal s =
     (case s of (dists, prev, queue, visited) \<Rightarrow>
        if queue = [] then Some (Inr s)
        else (case heappop queue of ((f, current_dist, current), queue1) \<Rightarrow>
                if Fin current_dist > dist_get dists current
                then astar_loop grid heuristic goal (dists, prev, queue1, visited)
                else if current = goal then Some (Inr (dists, prev, queue1, visited + 1))
                else (case expand grid heuristic goal current current_dist moves
                             (dists, prev, queue1) of
                        Inl e \<Rightarrow> Some (Inl e)
                      | Inr (dists1, prev1, queue2) \<Rightarrow>
                          astar_loop grid heuristic goal (dists1, prev1, queue2, visited + 1))))"

declare astar_loop.simps [code]

text \<open>The truth value of a coordinate pair: a tuple of two elements is never falsy.\<close>

definition truthy :: "Coord \<Rightarrow> bool" where
  "truthy c = True"

text \<open>The path loop: \<open>while cur: path.append(cur); cur = prev[cur]\<close>. The subscript
  \<open>prev[cur]\<close> on a dictionary raises \<open>KeyError\<close> for a missing key.\<close>

partial_function (option) walk_back ::
    "(Coord \<rightharpoonup> Coord) \<Rightarrow> Coord \<Rightarrow> Coord list \<Rightarrow> (py_error + Coord list) option" where
  "walk_back prev cur pth =
     (if truthy cur
      then (case prev cur of
              None \<Rightarrow> Some (Inl KeyError)
            | Some p \<Rightarrow> walk_back prev p (pth @ [cur]))
      else Some (Inr pth))"

declare walk_back.simps [code]

definition unreachable_result :: PathFindingResult where
  "unreachable_result = \<lparr>path_len = PInf, path = [], visited_count = 0, visited_percent = 0\<rparr>"

definition a_star :: "Grid \<Rightarrow> Coord \<Rightarrow> Coord \<Rightarrow> HeuristicFunc
                        \<Rightarrow> (py_error + PathFindingResult) option" where
  "a_star grid start goal heuristic =
     (if \<not> (in_bounds grid (fst start) (snd start) \<and> in_bounds grid (fst goal) (snd goal))
      then Some (Inr unreachable_result)
      else (case is_walkable grid (fst start) (snd start) of
        Inl e \<Rightarrow> Some (Inl e)
      | Inr ws \<Rightarrow>
      (case (if ws then is_walkable grid (fst goal) (snd goal) else Inr False) of
        Inl e \<Rightarrow> Some (Inl e)
      | Inr wg \<Rightarrow>
      if \<not> (ws \<and> wg) then Some (Inr unreachable_result)
      else (case total_walkable grid of
        Inl e \<Rightarrow> Some (Inl e)
      | Inr n_walkable \<Rightarrow>
      (case astar_loop grid heuristic goal
              ([start \<mapsto> 0], Map.empty, [(0 + heuristic start goal, 0, start)], 0) of
        None \<Rightarrow> None
      | Some (Inl e) \<Rightarrow> Some (Inl e)
      | Some (Inr (dists, prev, queue, visited)) \<Rightarrow>
          (let percent = (if n_walkable \<noteq> 0
                          then real_of_int visited / real_of_int n_walkable * 100 else 0)
           in if dists goal = None
              then Some (Inr \<lparr>path_len = PInf, path = [], visited_count = visited,
                               visited_percent = percent\<rparr>)
              else (case walk_back prev goal [] of
                      None \<Rightarrow> None
                    | Some (Inl e) \<Rightarrow> Some (Inl e)
                    | Some (Inr pth) \<Rightarrow>
                        Some (Inr \<lparr>path_len = Fin (the (dists goal)), path = rev pth,
                                    visited_count = visited,
                                    visited_percent = percent\<rparr>))))))))"

text \<open>The grid of the specification's scenario 5.\<close>

definition grid3 :: Grid where
  "grid3 = [[1, 1, 1], [1, 1, 1], [1, 1, 1]]"

section \<open>BipartiteMatcher: \<open>check_bipartite\<close>, \<open>hopcroft_karp\<close> and \<open>solve_matching\<close>\<close>

type_synonym Edge = "int \<times> int"

text \<open>\<open>adj[u].append(x)\<close>.\<close>

definition append_at :: "int list list \<Rightarrow> int \<Rightarrow> int \<Rightarrow> py_error + int list list" where
  "append_at adj u x =
     (case py_index (length adj) u of
        None \<Rightarrow> Inl IndexError
      | Some i \<Rightarrow> Inr (adj[i := adj ! i @ [x]]))"

fun build_adj :: "int list list \<Rightarrow> Edge list \<Rightarrow> py_error + int list list" where
  "build_adj adj [] = Inr adj"
| "build_adj adj ((u, v) # es) =
     (case append_at adj u v of
        Inl e \<Rightarrow> Inl e
      | Inr adj1 \<Rightarrow> (case append_at adj1 v u of
                       Inl e \<Rightarrow> Inl e
                     | Inr adj2 \<Rightarrow> build_adj adj2 es))"

text \<open>The \<open>for u in adj[v]\<close> loop of the colouring; the flag is \<open>False\<close> when the loop
  returned from \<open>check_bipartite\<close> at a conflict.\<close>

fun colour_scan :: "int \<Rightarrow> int list \<Rightarrow> int list \<Rightarrow> int list
                      \<Rightarrow> py_error + bool \<times> int list \<times> int list" where
  "colour_scan v [] colors q = Inr (True, colors, q)"
| "colour_scan v (u # us) colors q =
     (case py_get colors u of
        Inl e \<Rightarrow> Inl e
      | Inr cu \<Rightarrow>
          (case py_get colors v of
             Inl e \<Rightarrow> Inl e
           | Inr cv \<Rightarrow>
               if cu = - 1
               then (case py_set colors u (1 - cv) of
                       Inl e \<Rightarrow> Inl e
                     | Inr colors1 \<Rightarrow> colour_scan v us colors1 (q @ [u]))
               else if cu = cv then Inr (False, colors, q)
               else colour_scan v us colors q))"

text \<open>\<open>while q\<close>.\<close>

partial_function (option) colour_bfs ::
    "int list list \<Rightarrow> int list \<Rightarrow> int list \<Rightarrow> (py_error + bool \<times> int list) option" where
  "colour_bfs adj colors q =
     (if q = [] then Some (Inr (True, colors))
      else (case py_get adj (hd q) of
              Inl e \<Rightarrow> Some (Inl e)
            | Inr nbrs \<Rightarrow>
                (case colour_scan (hd q) nbrs colors (tl q) of
                   Inl e \<Rightarrow> Some (Inl e)
                 | Inr (ok, colors1, q1) \<Rightarrow>
                     if ok then colour_bfs adj colors1 q1
                     else Some (Inr (False, colors1)))))"

declare colour_bfs.simps [code]

text \<open>\<open>for start in range(n)\<close>: \<open>start\<close> is in range, \<open>colors\<close> has length \<open>n\<close>.\<close>

fun colour_components :: "int list list \<Rightarrow> int list \<Rightarrow> int list
                            \<Rightarrow> (py_error + bool \<times> int list) option" where
  "colour_components adj [] colors = Some (Inr (True, colors))"
| "colour_components adj (start # ss) colors =
     (if colors ! nat start \<noteq> - 1 then colour_components adj ss colors
      else (case colour_bfs adj (colors[nat start := 0]) [start] of
              None \<Rightarrow> None
            | Some (Inl e) \<Rightarrow> Some (Inl e)
            | Some (Inr (ok, colors1)) \<Rightarrow>
                if ok then colour_components adj ss colors1
                else Some (Inr (False, colors1))))"

definition check_bipartite :: "int \<Rightarrow> Edge list \<Rightarrow> (py_error + bool \<times> int list) option" where
  "check_bipartite n edges =
     (case build_adj (map (\<lambda>_. []) (py_range 0 n)) edges of
        Inl e \<Rightarrow> Some (Inl e)
      | Inr adj \<Rightarrow> colour_components adj (py_range 0 n) (py_replicate n (- 1)))"

text \<open>
  \<open>hopcroft_karp\<close>. The parameter \<open>left\<close> is the set \<open>left_partition\<close> as the list of its
  members in the order in which Python iterates the set (the same order at every
  iteration, since the set is never changed); \<open>u in left_partition\<close> is membership in
  that list. The parameter \<open>limit\<close> is the bound on the nested calls of \<open>dfs\<close>, described
  at \<open>dfs_loop\<close> below.
\<close>

fun build_forward :: "int list list \<Rightarrow> int list \<Rightarrow> Edge list \<Rightarrow> py_error + int list list" where
  "build_forward forward_adj left [] = Inr forward_adj"
| "build_forward forward_adj left ((u, v) # es) =
     (if u \<in> set left
      then (case append_at forward_adj u v of
              Inl e \<Rightarrow> Inl e
            | Inr fa1 \<Rightarrow> build_forward fa1 left es)
      else if v \<in> set left
      then (case append_at forward_adj v u of
              Inl e \<Rightarrow> Inl e
            | Inr fa1 \<Rightarrow> build_forward fa1 left es)
      else build_forward forward_adj left es)"

text \<open>The arrays the closures \<open>bfs\<close> and \<open>dfs\<close> share; \<open>dists\<close> is \<open>dist\<close>, whose entries
  are integers or \<open>float('inf')\<close> (and \<open>inf + 1 == inf\<close>).\<close>

record hk_state =
  pair_v :: "int list"
  pair_u :: "int list"
  dists :: "enat list"

text \<open>The first loop of \<open>bfs\<close>: \<open>for v in left_partition\<close>.\<close>

fun bfs_init :: "int list \<Rightarrow> int list \<Rightarrow> enat list \<Rightarrow> int list
                   \<Rightarrow> py_error + enat list \<times> int list" where
  "bfs_init pv [] d dq = Inr (d, dq)"
| "bfs_init pv (v # vs) d dq =
     (case py_get pv v of
        Inl e \<Rightarrow> Inl e
      | Inr p \<Rightarrow>
          if p \<noteq> - 1
          then (case py_set d v \<infinity> of
                  Inl e \<Rightarrow> Inl e
                | Inr d1 \<Rightarrow> bfs_init pv vs d1 dq)
          else (case py_set d v 0 of
                  Inl e \<Rightarrow> Inl e
                | Inr d1 \<Rightarrow> bfs_init pv vs d1 (dq @ [v])))"

text \<open>The inner loop of \<open>bfs\<close>: \<open>for u in forward_adj[v]\<close>.\<close>

fun bfs_scan :: "int list \<Rightarrow> int \<Rightarrow> int list \<Rightarrow> enat list \<Rightarrow> int list \<Rightarrow> bool
                   \<Rightarrow> py_error + enat list \<times> int list \<times> bool" where
  "bfs_scan pu_arr v [] d dq found_path = Inr (d, dq, found_path)"
| "bfs_scan pu_arr v (u # us) d dq found_path =
     (case py_get pu_arr u of
        Inl e \<Rightarrow> Inl e
      | Inr pu \<Rightarrow>
          if pu = - 1 then bfs_scan pu_arr v us d dq True
          else (case py_get d pu of
                  Inl e \<Rightarrow> Inl e
                | Inr dpu \<Rightarrow>
                    if dpu = \<infinity>
                    then (case py_get d v of
                            Inl e \<Rightarrow> Inl e
                          | Inr dv \<Rightarrow>
                              (case py_set d pu (dv + 1) of
                                 Inl e \<Rightarrow> Inl e
                               | Inr d1 \<Rightarrow> bfs_scan pu_arr v us d1 (dq @ [pu]) found_path))
                    else bfs_scan pu_arr v us d dq found_path))"

text \<open>\<open>while dq\<close>.\<close>

partial_function (option) bfs_layers ::
    "int list list \<Rightarrow> int list \<Rightarrow> enat list \<Rightarrow> int list \<Rightarrow> bool
       \<Rightarrow> (py_error + enat list \<times> bool) option" where
  "bfs_layers forward_adj pu_arr d dq found_path =
     (if dq = [] then Some (Inr (d, found_path))
      else (case py_get forward_adj (hd dq) of
              Inl e \<Rightarrow> Some (Inl e)
            | Inr nbrs \<Rightarrow>
                (case bfs_scan pu_arr (hd dq) nbrs d (tl dq) found_path of
                   Inl e \<Rightarrow> Some (Inl e)
                 | Inr (d1, dq1, found1) \<Rightarrow> bfs_layers forward_adj pu_arr d1 dq1 found1)))"

declare bfs_layers.simps [code]

definition bfs :: "int list list \<Rightarrow> int list \<Rightarrow> hk_state \<Rightarrow> (py_error + bool \<times> hk_state) option" where
  "bfs forward_adj left s =
     (case bfs_init (pair_v s) left (dists s) [] of
        Inl e \<Rightarrow> Some (Inl e)
      | Inr (d, dq) \<Rightarrow>
          (case bfs_layers forward_adj (pair_u s) d dq False of
             None \<Rightarrow> None
           | Some (Inl e) \<Rightarrow> Some (Inl e)
           | Some (Inr (d1, found_path)) \<Rightarrow> Some (Inr (found_path, s\<lparr>dists := d1\<rparr>))))"

text \<open>\<open>pair_v[v] = u; pair_u[u] = v\<close>.\<close>

definition set_pair :: "int \<Rightarrow> int \<Rightarrow> hk_state \<Rightarrow> py_error + hk_state" where
  "set_pair v u s =
     (case py_set (pair_v s) v u of
        Inl e \<Rightarrow> Inl e
      | Inr pv \<Rightarrow> (case py_set (pair_u s) u v of
                     Inl e \<Rightarrow> Inl e
                   | Inr pu \<Rightarrow> Inr (s\<lparr>pair_v := pv, pair_u := pu\<rparr>)))"

text \<open>
  \<open>dfs(v)\<close>, as the loop over the neighbours of \<open>v\<close> that are still to be tried:
  \<open>dfs_loop depth forward_adj v us s\<close> runs \<open>for u in us\<close> and the two statements after the
  loop. The recursion of \<open>dfs\<close> is the inner call on \<open>forward_adj[pu]\<close>.

  \<open>dfs\<close> is the one function of the repository that calls itself, one interpreter frame
  for every layer it descends, and the interpreter raises \<open>RecursionError\<close> at a call that
  would nest deeper than its recursion limit allows. The parameter \<open>limit\<close> of \<open>dfs\<close> is
  the number of nested calls of \<open>dfs\<close> that fit under that limit when \<open>hopcroft_karp\<close>
  calls it (the recursion limit less the frames in use); \<open>depth\<close> is the number of calls
  that still fit inside the running one. The exception leaves \<open>hopcroft_karp\<close> and
  \<open>solve_matching\<close>, which do not catch it.
\<close>

partial_function (option) dfs_loop ::
    "nat \<Rightarrow> int list list \<Rightarrow> int \<Rightarrow> int list \<Rightarrow> hk_state
       \<Rightarrow> (py_error + bool \<times> hk_state) option" where
  "dfs_loop depth forward_adj v us s =
     (case us of
        [] \<Rightarrow> (case py_set (dists s) v \<infinity> of
                 Inl e \<Rightarrow> Some (Inl e)
               | Inr d1 \<Rightarrow> Some (Inr (False, s\<lparr>dists := d1\<rparr>)))
      | u # us1 \<Rightarrow>
          (case py_get (pair_u s) u of
             Inl e \<Rightarrow> Some (Inl e)
           | Inr pu \<Rightarrow>
               if pu = - 1
               then (case set_pair v u s of
                       Inl e \<Rightarrow> Some (Inl e)
                     | Inr s1 \<Rightarrow> Some (Inr (True, s1)))
               else (case py_get (dists s) pu of
                       Inl e \<Rightarrow> Some (Inl e)
                     | Inr dpu \<Rightarrow>
                         (case py_get (dists s) v of
                            Inl e \<Rightarrow> Some (Inl e)
                          | Inr dv \<Rightarrow>
                              if dpu = dv + 1
                              then (if depth = 0 then Some (Inl RecursionError)
                                    else (case py_get forward_adj pu of
                                      Inl e \<Rightarrow> Some (Inl e)
                                    | Inr nbrs \<Rightarrow>
                                        Option.bind (dfs_loop (depth - 1) forward_adj pu nbrs s)
                                          (\<lambda>r. case r of
                                                  Inl e \<Rightarrow> Some (Inl e)
                                                | Inr (ok, s1) \<Rightarrow>
                                                    if ok
                                                    then (case set_pair v u s1 of
                                                            Inl e \<Rightarrow> Some (Inl e)
                                                          | Inr s2 \<Rightarrow> Some (Inr (True, s2)))
                                                    else dfs_loop depth forward_adj v us1 s1)))
                              else dfs_loop depth forward_adj v us1 s))))"

declare dfs_loop.simps [code]

text \<open>A call \<open>dfs(v)\<close> made by \<open>hopcroft_karp\<close>.\<close>

definition dfs :: "nat \<Rightarrow> int list list \<Rightarrow> int \<Rightarrow> hk_state
                     \<Rightarrow> (py_error + bool \<times> hk_state) option" where
  "dfs limit forward_adj v s =
     (if limit = 0 then Some (Inl RecursionError)
      else (case py_get forward_adj v of
              Inl e \<Rightarrow> Some (Inl e)
            | Inr nbrs \<Rightarrow> dfs_loop (limit - 1) forward_adj v nbrs s))"

text \<open>One phase: \<open>for u in left_partition: if pair_v[u] == -1: dfs(u)\<close>.\<close>

fun dfs_all :: "nat \<Rightarrow> int list list \<Rightarrow> int list \<Rightarrow> hk_state
                  \<Rightarrow> (py_error + hk_state) option" where
  "dfs_all limit forward_adj [] s = Some (Inr s)"
| "dfs_all limit forward_adj (u # us) s =
     (case py_get (pair_v s) u of
        Inl e \<Rightarrow> Some (Inl e)
      | Inr p \<Rightarrow>
          if p = - 1
          then (case dfs limit forward_adj u s of
                  None \<Rightarrow> None
                | Some (Inl e) \<Rightarrow> Some (Inl e)
                | Some (Inr (ok, s1)) \<Rightarrow> dfs_all limit forward_adj us s1)
          else dfs_all limit forward_adj us s)"

text \<open>\<open>while bfs(): ...\<close>.\<close>

partial_function (option) phases ::
    "nat \<Rightarrow> int list list \<Rightarrow> int list \<Rightarrow> hk_state \<Rightarrow> (py_error + hk_state) option" where
  "phases limit forward_adj left s =
     (case bfs forward_adj left s of
        None \<Rightarrow> None
      | Some (Inl e) \<Rightarrow> Some (Inl e)
      | Some (Inr (found_path, s1)) \<Rightarrow>
          if found_path
          then (case dfs_all limit forward_adj left s1 of
                  None \<Rightarrow> None
                | Some (Inl e) \<Rightarrow> Some (Inl e)
                | Some (Inr s2) \<Rightarrow> phases limit forward_adj left s2)
          else Some (Inr s1))"

declare phases.simps [code]

fun collect_matching :: "int list \<Rightarrow> int list \<Rightarrow> py_error + Edge list" where
  "collect_matching pv [] = Inr []"
| "collect_matching pv (u # us) =
     (case py_get pv u of
        Inl e \<Rightarrow> Inl e
      | Inr p \<Rightarrow> (case collect_matching pv us of
                    Inl e \<Rightarrow> Inl e
                  | Inr rest \<Rightarrow> Inr (if p \<noteq> - 1 then (u, p) # rest else rest)))"

definition hopcroft_karp :: "nat \<Rightarrow> int \<Rightarrow> Edge list \<Rightarrow> int list
                               \<Rightarrow> (py_error + Edge list) option" where
  "hopcroft_karp limit n edges left =
     (case build_forward (map (\<lambda>_. []) (py_range 0 n)) left edges of
        Inl e \<Rightarrow> Some (Inl e)
      | Inr forward_adj \<Rightarrow>
          (case phases limit forward_adj left
                  \<lparr>pair_v = py_replicate n (- 1), pair_u = py_replicate n (- 1),
                   dists = py_replicate n \<infinity>\<rparr> of
             None \<Rightarrow> None
           | Some (Inl e) \<Rightarrow> Some (Inl e)
           | Some (Inr s) \<Rightarrow>
               (case collect_matching (pair_v s) left of
                  Inl e \<Rightarrow> Some (Inl e)
                | Inr matching \<Rightarrow> Some (Inr matching))))"

text \<open>
  \<open>solve_matching\<close>. The set comprehension \<open>{i for i, c in enumerate(colors) if c == 0}\<close>
  has the members \<open>zero_coloured colors\<close>; Python does not fix the order in which a set is
  iterated, so that order is the parameter \<open>set_order\<close>, which maps the members to the
  list in which the set yields them; \<open>limit\<close> is passed on to \<open>hopcroft_karp\<close>.
\<close>

definition zero_coloured :: "int list \<Rightarrow> int list" where
  "zero_coloured colors = map fst (filter (\<lambda>(i, c). c = 0) (zip [0..int (length colors) - 1] colors))"

definition solve_matching :: "(int list \<Rightarrow> int list) \<Rightarrow> nat \<Rightarrow> int \<Rightarrow> Edge list
                                \<Rightarrow> (py_error + bool \<times> Edge list) option" where
  "solve_matching set_order limit n edges =
     (case check_bipartite n edges of
        None \<Rightarrow> None
      | Some (Inl e) \<Rightarrow> Some (Inl e)
      | Some (Inr (is_bipartite, colors)) \<Rightarrow>
          if \<not> is_bipartite then Some (Inr (False, []))
          else (case hopcroft_karp limit n edges (set_order (zero_coloured colors)) of
                  None \<Rightarrow> None
                | Some (Inl e) \<Rightarrow> Some (Inl e)
                | Some (Inr matching) \<Rightarrow> Some (Inr (True, matching))))"

text \<open>
  Notions for the proofs about the matcher. Vertices are the integers of \<open>[0, n)\<close>;
  \<open>PV\<close>, \<open>PU\<close> and \<open>DV\<close> read the three arrays at a vertex; \<open>assign\<close> is the state after
  \<open>pair_v[v] = u; pair_u[u] = v\<close> with both indices in range.
\<close>

definition vertex :: "nat \<Rightarrow> int \<Rightarrow> bool" where
  "vertex n v \<longleftrightarrow> 0 \<le> v \<and> v < int n"

definition PV :: "hk_state \<Rightarrow> int \<Rightarrow> int" where
  "PV s v = pair_v s ! nat v"

definition PU :: "hk_state \<Rightarrow> int \<Rightarrow> int" where
  "PU s x = pair_u s ! nat x"

definition DV :: "hk_state \<Rightarrow> int \<Rightarrow> enat" where
  "DV s v = dists s ! nat v"

definition assign :: "int \<Rightarrow> int \<Rightarrow> hk_state \<Rightarrow> hk_state" where
  "assign v u s = s\<lparr>pair_v := (pair_v s)[nat v := u], pair_u := (pair_u s)[nat u := v]\<rparr>"

definition adj_ok :: "nat \<Rightarrow> int list list \<Rightarrow> bool" where
  "adj_ok n fa \<longleftrightarrow> length fa = n \<and> (\<forall>row\<in>set fa. \<forall>u\<in>set row. vertex n u)"

definition lens :: "nat \<Rightarrow> hk_state \<Rightarrow> bool" where
  "lens n s \<longleftrightarrow> length (pair_v s) = n \<and> length (pair_u s) = n \<and> length (dists s) = n"

text \<open>\<open>I1\<close>: every matched vertex \<open>w\<close> is the partner of its partner, which is one of its
  neighbours. \<open>I2x\<close>: every right vertex other than \<open>y\<close> that has a partner is the partner
  of that partner; \<open>I2x n s (- 1)\<close> says it of every right vertex.\<close>

definition I1 :: "nat \<Rightarrow> int list list \<Rightarrow> hk_state \<Rightarrow> bool" where
  "I1 n fa s \<longleftrightarrow>
     (\<forall>w. vertex n w \<and> PV s w \<noteq> - 1 \<longrightarrow>
          vertex n (PV s w) \<and> PU s (PV s w) = w \<and> PV s w \<in> set (fa ! nat w))"

definition I2x :: "nat \<Rightarrow> hk_state \<Rightarrow> int \<Rightarrow> bool" where
  "I2x n s y \<longleftrightarrow>
     (\<forall>x. vertex n x \<and> x \<noteq> y \<and> PU s x \<noteq> - 1 \<longrightarrow> vertex n (PU s x) \<and> PV s (PU s x) = x)"

text \<open>How a call \<open>dfs(v)\<close> may change the arrays: a distance only becomes \<open>inf\<close>, and only
  at \<open>v\<close> or at a vertex of a deeper layer (\<open>dchange\<close>; \<open>deeper\<close> excludes \<open>v\<close>); the
  partner of a vertex on the layer of \<open>v\<close> or above is kept (\<open>F1\<close>); a right vertex whose
  partner changes was free or matched to a deeper layer (\<open>F2\<close>); a matched vertex stays
  matched (\<open>keeps\<close>).\<close>

definition dchange :: "nat \<Rightarrow> int \<Rightarrow> hk_state \<Rightarrow> hk_state \<Rightarrow> bool" where
  "dchange n v s s' \<longleftrightarrow>
     (\<forall>w. vertex n w \<and> DV s' w \<noteq> DV s w \<longrightarrow> DV s' w = \<infinity> \<and> (w = v \<or> DV s v < DV s w))"

definition deeper :: "nat \<Rightarrow> int \<Rightarrow> hk_state \<Rightarrow> hk_state \<Rightarrow> bool" where
  "deeper n v s s' \<longleftrightarrow>
     (\<forall>w. vertex n w \<and> DV s' w \<noteq> DV s w \<longrightarrow> DV s' w = \<infinity> \<and> DV s v < DV s w)"

definition same_pairs :: "hk_state \<Rightarrow> hk_state \<Rightarrow> bool" where
  "same_pairs s s' \<longleftrightarrow> pair_v s' = pair_v s \<and> pair_u s' = pair_u s"

definition F1 :: "nat \<Rightarrow> int \<Rightarrow> hk_state \<Rightarrow> hk_state \<Rightarrow> bool" where
  "F1 n v s s' \<longleftrightarrow> (\<forall>w. vertex n w \<and> w \<noteq> v \<and> DV s w \<le> DV s v \<longrightarrow> PV s' w = PV s w)"

definition F2 :: "nat \<Rightarrow> int \<Rightarrow> hk_state \<Rightarrow> hk_state \<Rightarrow> bool" where
  "F2 n v s s' \<longleftrightarrow>
     (\<forall>x. vertex n x \<and> PU s' x \<noteq> PU s x \<longrightarrow> PU s x = - 1 \<or> DV s v < DV s (PU s x))"

definition keeps :: "nat \<Rightarrow> hk_state \<Rightarrow> hk_state \<Rightarrow> bool" where
  "keeps n s s' \<longleftrightarrow> (\<forall>w. vertex n w \<and> PV s w \<noteq> - 1 \<longrightarrow> PV s' w \<noteq> - 1)"

definition post_ok :: "nat \<Rightarrow> int list list \<Rightarrow> int \<Rightarrow> hk_state \<Rightarrow> hk_state \<Rightarrow> bool" where
  "post_ok n fa v s s' \<longleftrightarrow>
     I1 n fa s' \<and> I2x n s' (PV s v) \<and> F1 n v s s' \<and> F2 n v s s' \<and>
     PV s' v \<noteq> PV s v \<and> PV s' v \<noteq> - 1 \<and> keeps n s s'"

definition dfs_pre :: "nat \<Rightarrow> int list list \<Rightarrow> int \<Rightarrow> int list \<Rightarrow> hk_state \<Rightarrow> bool" where
  "dfs_pre n fa v us s \<longleftrightarrow>
     adj_ok n fa \<and> lens n s \<and> I1 n fa s \<and> I2x n s (- 1) \<and> vertex n v \<and>
     set us \<subseteq> set (fa ! nat v) \<and> DV s v < \<infinity>"

definition dfs_post :: "nat \<Rightarrow> int list list \<Rightarrow> int \<Rightarrow> hk_state
                          \<Rightarrow> py_error + bool \<times> hk_state \<Rightarrow> bool" where
  "dfs_post n fa v s r \<longleftrightarrow>
     (case r of
        Inl e \<Rightarrow> True
      | Inr (ok, s') \<Rightarrow>
          lens n s' \<and> dchange n v s s' \<and>
          (if ok then post_ok n fa v s s' else same_pairs s s'))"

text \<open>The invariant of the phases, how the layering BFS may change the distances
  (\<open>only_inf\<close>: only entries that were \<open>inf\<close>), adjacency lists that hold no left vertex,
  and the notions for the two-colouring: the colour of a vertex, well-formed colour
  arrays, a vertex all of whose neighbours carry the other colour, the invariant of the
  colouring BFS, and one colouring extending another.\<close>

definition only_inf :: "enat list \<Rightarrow> enat list \<Rightarrow> bool" where
  "only_inf d d1 \<longleftrightarrow> length d1 = length d \<and> (\<forall>k<length d. d1 ! k \<noteq> d ! k \<longrightarrow> d ! k = \<infinity>)"

definition phase_inv :: "nat \<Rightarrow> int list list \<Rightarrow> hk_state \<Rightarrow> bool" where
  "phase_inv n fa s \<longleftrightarrow> adj_ok n fa \<and> lens n s \<and> I1 n fa s \<and> I2x n s (- 1)"

definition right_only :: "int list list \<Rightarrow> int list \<Rightarrow> bool" where
  "right_only fa left \<longleftrightarrow> (\<forall>row\<in>set fa. \<forall>x\<in>set row. x \<notin> set left)"

definition CV :: "int list \<Rightarrow> int \<Rightarrow> int" where
  "CV colors v = colors ! nat v"

definition cols_ok :: "nat \<Rightarrow> int list \<Rightarrow> bool" where
  "cols_ok n colors \<longleftrightarrow>
     length colors = n \<and> (\<forall>v. vertex n v \<longrightarrow> CV colors v = - 1 \<or> CV colors v = 0 \<or> CV colors v = 1)"

definition done_v :: "int list list \<Rightarrow> int list \<Rightarrow> int \<Rightarrow> bool" where
  "done_v adj colors v \<longleftrightarrow>
     (\<forall>u\<in>set (adj ! nat v). CV colors u \<noteq> - 1 \<and> CV colors u \<noteq> CV colors v)"

definition cinv :: "nat \<Rightarrow> int list list \<Rightarrow> int list \<Rightarrow> int list \<Rightarrow> bool" where
  "cinv n adj colors q \<longleftrightarrow>
     cols_ok n colors \<and> (\<forall>x\<in>set q. vertex n x \<and> CV colors x \<noteq> - 1) \<and>
     (\<forall>v. vertex n v \<and> CV colors v \<noteq> - 1 \<and> v \<notin> set q \<longrightarrow> done_v adj colors v)"

definition ext :: "nat \<Rightarrow> int list \<Rightarrow> int list \<Rightarrow> bool" where
  "ext n colors colors' \<longleftrightarrow> (\<forall>v. vertex n v \<and> CV colors v \<noteq> - 1 \<longrightarrow> CV colors' v = CV colors v)"

text \<open>Notions for termination. The uncoloured vertices (the colouring BFS colours one at
  every step that lengthens its queue); the vertices whose distance is \<open>inf\<close> (the
  layering BFS gives one of them a layer at every step that lengthens its queue); the
  vertices of the layers below \<open>v\<close> (a recursive call of \<open>dfs\<close> goes one layer down); the
  free vertices (a phase that found a path matches one of them).\<close>

definition unc :: "nat \<Rightarrow> int list \<Rightarrow> int set" where
  "unc n colors = {v. vertex n v \<and> CV colors v = - 1}"

definition infs :: "nat \<Rightarrow> enat list \<Rightarrow> int set" where
  "infs n d = {w. vertex n w \<and> d ! nat w = \<infinity>}"

definition below :: "nat \<Rightarrow> hk_state \<Rightarrow> int \<Rightarrow> int set" where
  "below n s v = {w. vertex n w \<and> DV s v < DV s w \<and> DV s w < \<infinity>}"

definition frees :: "nat \<Rightarrow> hk_state \<Rightarrow> int set" where
  "frees n s = {w. vertex n w \<and> PV s w = - 1}"

text \<open>\<open>aug n fa pu d v\<close>: from the left vertex \<open>v\<close> a path leads to a free right vertex,
  going down one layer of \<open>d\<close> at every matched right vertex: the paths that \<open>dfs(v)\<close>
  follows.\<close>

inductive aug :: "nat \<Rightarrow> int list list \<Rightarrow> int list \<Rightarrow> enat list \<Rightarrow> int \<Rightarrow> bool"
  for n fa pu d where
  aug_free: "vertex n v \<Longrightarrow> d ! nat v < \<infinity> \<Longrightarrow> u \<in> set (fa ! nat v) \<Longrightarrow> pu ! nat u = - 1
             \<Longrightarrow> aug n fa pu d v"
| aug_step: "vertex n v \<Longrightarrow> d ! nat v < \<infinity> \<Longrightarrow> u \<in> set (fa ! nat v) \<Longrightarrow> pu ! nat u \<noteq> - 1
             \<Longrightarrow> d ! nat (pu ! nat u) = d ! nat v + 1 \<Longrightarrow> aug n fa pu d (pu ! nat u)
             \<Longrightarrow> aug n fa pu d v"

definition augs :: "nat \<Rightarrow> int list list \<Rightarrow> hk_state \<Rightarrow> int \<Rightarrow> bool" where
  "augs n fa s v \<longleftrightarrow> aug n fa (pair_u s) (dists s) v"

text \<open>Every neighbour of \<open>v\<close> outside \<open>us\<close> is matched and leads to no such path
  (\<open>scanned\<close>); every vertex whose distance differs in \<open>s'\<close> starts no such path in \<open>s\<close>
  (\<open>dead_marks\<close>).\<close>

definition scanned :: "nat \<Rightarrow> int list list \<Rightarrow> int \<Rightarrow> int list \<Rightarrow> hk_state \<Rightarrow> bool" where
  "scanned n fa v us s \<longleftrightarrow>
     (\<forall>u\<in>set (fa ! nat v). u \<in> set us \<or>
        (PU s u \<noteq> - 1 \<and> \<not> (DV s (PU s u) = DV s v + 1 \<and> augs n fa s (PU s u))))"

definition dead_marks :: "nat \<Rightarrow> int list list \<Rightarrow> hk_state \<Rightarrow> hk_state \<Rightarrow> bool" where
  "dead_marks n fa s s' \<longleftrightarrow> (\<forall>w. vertex n w \<and> DV s' w \<noteq> DV s w \<longrightarrow> \<not> augs n fa s w)"


section \<open>Properties of the GraphStore\<close>


lemma py_index_Some_lt: "py_index len i = Some k \<Longrightarrow> k < len"
  by (auto simp: py_index_def split: if_splits)

lemma py_index_nonneg: "0 \<le> i \<Longrightarrow> i < int len \<Longrightarrow> py_index len i = Some (nat i)"
  by (simp add: py_index_def)

lemma py_index_None_iff: "py_index len i = None \<longleftrightarrow> \<not> (- int len \<le> i \<and> i < int len)"
  by (auto simp: py_index_def)



lemma square_nth: "square m N \<Longrightarrow> i < N \<Longrightarrow> length (m ! i) = N"
  by (simp add: square_def)

lemma square_update: "square m N \<Longrightarrow> length r = N \<Longrightarrow> square (m[i := r]) N"
  by (auto simp: square_def dest!: set_update_subset_insert[THEN subsetD])

lemma set_entry_square:
  assumes "square m N"
  shows "set_entry m a b v =
     (case py_index N a of None \<Rightarrow> Inl IndexError
      | Some i \<Rightarrow> (case py_index N b of None \<Rightarrow> Inl IndexError
          | Some j \<Rightarrow> Inr (m[i := (m ! i)[j := v]])))"
  using assms
  by (auto simp: set_entry_def py_set_def square_def dest: py_index_Some_lt split: option.splits)

lemma upd2_nth:
  "i < length m \<Longrightarrow> (m[i := (m ! i)[j := v]]) ! p ! q =
     (if p = i \<and> q = j \<and> j < length (m ! i) then v else m ! p ! q)"
  by (cases "p = i") (auto simp: nth_list_update list_update_beyond not_less)

lemma upd2_square: "square m N \<Longrightarrow> square (m[i := (m ! i)[j := v]]) N"
proof (cases "i < N")
  case True
  assume "square m N"
  then show ?thesis using True by (auto intro!: square_update simp: square_nth)
next
  case False
  assume "square m N"
  then show ?thesis using False by (simp add: square_def list_update_beyond)
qed

lemma fold_diag_square:
  "square m N \<Longrightarrow> square (fold (\<lambda>i m. m[nat i := (m ! nat i)[nat i := v]]) ids m) N"
  by (induction ids arbitrary: m) (auto simp: upd2_square)

lemma fold_diag_nth:
  "square m N \<Longrightarrow> p < N \<Longrightarrow> q < N \<Longrightarrow> \<forall>i\<in>set ids. 0 \<le> i \<Longrightarrow>
   fold (\<lambda>i m. m[nat i := (m ! nat i)[nat i := v]]) ids m ! p ! q =
     (if p = q \<and> int p \<in> set ids then v else m ! p ! q)"
proof (induction ids arbitrary: m)
  case Nil
  then show ?case by simp
next
  case (Cons a ids)
  have sq: "square (m[nat a := (m ! nat a)[nat a := v]]) N"
    using Cons.prems(1) by (rule upd2_square)
  show ?case
  proof (cases "nat a < N")
    case True
    then show ?thesis
      using Cons.IH[OF sq Cons.prems(2,3)] Cons.prems
      by (auto simp: upd2_nth square_def)
  next
    case False
    then have "m[nat a := (m ! nat a)[nat a := v]] = m"
      using Cons.prems(1) by (simp add: square_def list_update_beyond)
    then show ?thesis
      using Cons.IH[OF Cons.prems(1,2,3)] Cons.prems False by auto
  qed
qed

lemma init_square: "square (init_matrix k) (nat k)"
  unfolding init_matrix_def
  by (rule fold_diag_square) (auto simp: square_def py_range_def py_replicate_def)

lemma init_nth:
  assumes "p < nat k" "q < nat k"
  shows "init_matrix k ! p ! q = (if p = q then Some (Fin 0) else None)"
proof -
  have sq: "square (map (\<lambda>_. py_replicate k None) (py_range 0 k) :: matrix) (nat k)"
    by (auto simp: square_def py_range_def py_replicate_def)
  have "init_matrix k ! p ! q =
     (if p = q \<and> int p \<in> set (py_range 0 k) then Some (Fin 0)
      else (map (\<lambda>_. py_replicate k None) (py_range 0 k) :: matrix) ! p ! q)"
    unfolding init_matrix_def
    by (rule fold_diag_nth[OF sq assms]) (auto simp: py_range_def)
  then show ?thesis using assms
    by (auto simp: py_range_def py_replicate_def)
qed



lemma append_rows_ok:
  "0 \<le> lo \<Longrightarrow> hi < ns \<Longrightarrow>
   append_rows m [lo..hi] ns =
     (m @ map (\<lambda>i. (replicate (nat ns) None)[nat i := Some (Fin 0)]) [lo..hi], None)"
proof (induction "nat (hi + 1 - lo)" arbitrary: lo m)
  case 0
  then have "[lo..hi] = []" by simp
  then show ?case by simp
next
  case (Suc k)
  then have le: "lo \<le> hi" by simp
  have step: "[lo..hi] = lo # [lo + 1..hi]" using le by (simp add: upto_rec1)
  have idx: "py_index (nat ns) lo = Some (nat lo)"
    using Suc.prems le by (simp add: py_index_def)
  have k: "k = nat (hi + 1 - (lo + 1))" using Suc.hyps(2) by simp
  have lo1: "0 \<le> lo + 1" using Suc.prems by simp
  show ?case
    unfolding step
    using Suc.hyps(1)[OF k lo1 Suc.prems(2)] idx
    by (simp add: py_set_def py_replicate_def)
qed


lemma add_vertex_wf_eq:
  assumes "wf_graph g" "gn g \<le> a"
  shows "add_vertex g a = (g\<lparr>gn := a + 1, adj_matrix := grow (adj_matrix g) (gn g) a\<rparr>, None)"
proof -
  have "0 \<le> gn g" using assms by (simp add: wf_graph_def)
  then show ?thesis
    using assms(2) append_rows_ok[of "gn g" a "a + 1"]
    by (simp add: add_vertex_def py_range_def grow_def py_replicate_def Let_def)
qed

lemma wf_square: "wf_graph g \<longleftrightarrow> 0 \<le> gn g \<and> square (adj_matrix g) (nat (gn g))"
  by (auto simp: wf_graph_def square_def list_all_iff)

lemma grow_square:
  assumes "square m (nat k)" "0 \<le> k" "k \<le> a"
  shows "square (grow m k a) (nat (a + 1))"
proof -
  have "nat k + nat (a + 1 - k) = nat (a + 1)" using assms by simp
  moreover have "length [k..a] = nat (a + 1 - k)" by simp
  ultimately show ?thesis
    using assms(1) by (auto simp: square_def grow_def simp del: length_upto)
qed

lemma grow_nth:
  assumes "square m (nat k)" "0 \<le> k" "k \<le> a" "p < nat (a + 1)" "q < nat (a + 1)"
  shows "grow m k a ! p ! q =
     (if p < nat k then (if q < nat k then m ! p ! q else None)
      else if p = q then Some (Fin 0) else None)"
proof (cases "p < nat k")
  case True
  then have "grow m k a ! p = m ! p @ replicate (nat (a + 1 - k)) None"
    using assms(1) by (simp add: grow_def square_def nth_append)
  moreover have "length (m ! p) = nat k" using True assms(1) by (simp add: square_def)
  ultimately show ?thesis using True assms by (auto simp: nth_append)
next
  case False
  have len: "length m = nat k" using assms(1) by (simp add: square_def)
  have pk: "p - nat k < length [k..a]" using False assms by simp
  have "grow m k a ! p = map (\<lambda>i. (replicate (nat (a + 1)) None)[nat i := Some (Fin 0)]) [k..a] ! (p - nat k)"
    using False len by (simp add: grow_def nth_append)
  also have "\<dots> = (replicate (nat (a + 1)) None)[nat ([k..a] ! (p - nat k)) := Some (Fin 0)]"
    using pk by (simp only: nth_map)
  also have "[k..a] ! (p - nat k) = k + int (p - nat k)"
    using pk by (simp add: nth_upto)
  also have "nat (k + int (p - nat k)) = p" using False assms by simp
  finally show ?thesis using False assms by (auto simp: nth_list_update)
qed

lemma grow_sym:
  assumes "square m (nat k)" "0 \<le> k" "k \<le> a" "sym_m m (nat k)"
  shows "sym_m (grow m k a) (nat (a + 1))"
  using assms unfolding sym_m_def
  by (auto simp: grow_nth)




lemma drop_at_length: "k < length xs \<Longrightarrow> length (drop_at k xs) = length xs - 1"
  by (auto simp: drop_at_def)

lemma drop_at_nth:
  "k < length xs \<Longrightarrow> p < length xs - 1 \<Longrightarrow>
   drop_at k xs ! p = xs ! (if p < k then p else Suc p)"
  by (auto simp: drop_at_def nth_append min_def)

lemma pop_column_ok:
  "\<forall>row\<in>set m. k < length row \<Longrightarrow>
   pop_column m (int k) = (map (drop_at k) m, None)"
  by (induction m) (auto simp: py_pop_def py_index_def drop_at_def)

lemma remove_vertex_wf_eq:
  assumes "wf_graph g" "0 \<le> a" "a < gn g"
  shows "remove_vertex g a =
     (g\<lparr>gn := gn g - 1, adj_matrix := map (drop_at (nat a)) (drop_at (nat a) (adj_matrix g))\<rparr>, None)"
proof -
  have sq: "square (adj_matrix g) (nat (gn g))" using assms(1) by (simp add: wf_square)
  have pop: "py_pop (adj_matrix g) a = Inr (drop_at (nat a) (adj_matrix g))"
    using assms sq by (simp add: py_pop_def py_index_def square_def drop_at_def)
  have "\<forall>row\<in>set (drop_at (nat a) (adj_matrix g)). nat a < length row"
    using sq assms by (auto simp: square_def drop_at_def dest: in_set_takeD in_set_dropD)
  from pop_column_ok[OF this] pop assms show ?thesis
    by (simp add: remove_vertex_def)
qed

lemma shrink_square:
  assumes "square m N" "k < N"
  shows "square (map (drop_at k) (drop_at k m)) (N - 1)"
  using assms
  by (auto simp: square_def drop_at_def min_def dest: in_set_takeD in_set_dropD)

lemma shrink_nth:
  assumes "square m N" "k < N" "p < N - 1" "q < N - 1"
  shows "map (drop_at k) (drop_at k m) ! p ! q =
         m ! (if p < k then p else Suc p) ! (if q < k then q else Suc q)"
proof -
  have "length (drop_at k m) = N - 1" using assms by (simp add: drop_at_length square_def)
  then have "map (drop_at k) (drop_at k m) ! p = drop_at k (drop_at k m ! p)"
    using assms by simp
  also have "drop_at k m ! p = m ! (if p < k then p else Suc p)"
    using assms by (intro drop_at_nth) (auto simp: square_def)
  also have "drop_at k (m ! (if p < k then p else Suc p)) ! q =
             m ! (if p < k then p else Suc p) ! (if q < k then q else Suc q)"
    using assms by (intro drop_at_nth) (auto simp: square_def)
  finally show ?thesis .
qed

lemma shrink_sym:
  assumes "square m N" "k < N" "sym_m m N"
  shows "sym_m (map (drop_at k) (drop_at k m)) (N - 1)"
  using assms(3) unfolding sym_m_def
  by (auto simp: shrink_nth[OF assms(1,2)])

lemma set_entry_square_res:
  assumes "square m N" "set_entry m a b v = Inr m1"
  shows "square m1 N"
  using assms
  by (auto simp: set_entry_square[OF assms(1)] upd2_square split: option.splits)

lemma set_entry_twice:
  assumes "square m N" "set_entry m a b v = Inr m1"
  shows "\<exists>i j. i < N \<and> j < N \<and> py_index N a = Some i \<and> py_index N b = Some j \<and>
               m1 = m[i := (m ! i)[j := v]] \<and>
               set_entry m1 b a v = Inr (m1[j := (m1 ! j)[i := v]])"
proof -
  from assms obtain i j where ij: "py_index N a = Some i" "py_index N b = Some j"
    and m1: "m1 = m[i := (m ! i)[j := v]]"
    by (auto simp: set_entry_square[OF assms(1)] split: option.splits)
  have sq1: "square m1 N" using assms by (rule set_entry_square_res)
  have "set_entry m1 b a v = Inr (m1[j := (m1 ! j)[i := v]])"
    by (simp add: set_entry_square[OF sq1] ij)
  then show ?thesis
    using ij m1 py_index_Some_lt[OF ij(1)] py_index_Some_lt[OF ij(2)] by blast
qed

lemma set_both_nth:
  assumes "square m N" "i < N" "j < N" "p < N" "q < N"
    and m1: "m1 = m[i := (m ! i)[j := v]]"
  shows "m1[j := (m1 ! j)[i := v]] ! p ! q =
         (if (p = j \<and> q = i) \<or> (p = i \<and> q = j) then v else m ! p ! q)"
proof -
  have sq1: "square m1 N" unfolding m1 using assms(1) by (rule upd2_square)
  have l: "j < length m1" "i < length (m1 ! j)" "i < length m" "j < length (m ! i)"
    using assms(1,2,3) sq1 by (auto simp: square_def)
  have A: "m1[j := (m1 ! j)[i := v]] ! p ! q = (if p = j \<and> q = i then v else m1 ! p ! q)"
    using l(1,2) by (simp only: upd2_nth) simp
  have B: "m1 ! p ! q = (if p = i \<and> q = j then v else m ! p ! q)"
    using l(3,4) unfolding m1 by (simp only: upd2_nth) simp
  have C: "m1[j := (m1 ! j)[i := v]] ! p ! q =
      (if p = j \<and> q = i then v else (if p = i \<and> q = j then v else m ! p ! q))"
    by (simp only: A B)
  show ?thesis by (simp only: C) presburger
qed

lemma set_both_sym:
  assumes "square m N" "sym_m m N" "i < N" "j < N"
    and m1: "m1 = m[i := (m ! i)[j := v]]"
  shows "sym_m (m1[j := (m1 ! j)[i := v]]) N"
  unfolding sym_m_def
proof (intro allI impI)
  fix p q assume pq: "p < N" "q < N"
  have "m ! p ! q = m ! q ! p" using assms(2) pq by (simp add: sym_m_def)
  then show "m1[j := (m1 ! j)[i := v]] ! p ! q = m1[j := (m1 ! j)[i := v]] ! q ! p"
    by (simp only: set_both_nth[OF assms(1,3,4) pq m1] set_both_nth[OF assms(1,3,4) pq(2,1) m1])
       auto
qed




lemma add_vertex_inv: "inv_u g \<Longrightarrow> inv_u (fst (add_vertex g a))"
proof (cases "a < gn g")
  case True
  assume "inv_u g"
  then show ?thesis using True by (simp add: add_vertex_def)
next
  case False
  assume inv: "inv_u g"
  then have wf: "wf_graph g" by (simp add: inv_u_def)
  have le: "gn g \<le> a" using False by simp
  have sq: "square (adj_matrix g) (nat (gn g))" "0 \<le> gn g" using wf by (simp_all add: wf_square)
  show ?thesis
    using inv grow_square[OF sq le] grow_sym[OF sq le] sq le
    by (simp add: add_vertex_wf_eq[OF wf le] inv_u_def wf_square)
qed


lemma remove_vertex_inv: "inv_u g \<Longrightarrow> inv_u (fst (remove_vertex g a))"
proof (cases "0 \<le> a \<and> a < gn g")
  case False
  assume "inv_u g"
  then show ?thesis using False by (simp add: remove_vertex_def)
next
  case True
  assume inv: "inv_u g"
  then have wf: "wf_graph g" by (simp add: inv_u_def)
  have sq: "square (adj_matrix g) (nat (gn g))" using wf by (simp add: wf_square)
  have k: "nat a < nat (gn g)" using True by simp
  have n1: "nat (gn g - 1) = nat (gn g) - 1" by simp
  show ?thesis
    using inv shrink_square[OF sq k] shrink_sym[OF sq k] True
    by (simp add: remove_vertex_wf_eq[OF wf] inv_u_def wf_square n1)
qed

lemma set_pair_inv:
  assumes "inv_u g"
  shows "inv_u (case set_entry (adj_matrix g) a b v of
              Inl e \<Rightarrow> g
            | Inr m1 \<Rightarrow>
                (if graph_type g = UNDIRECTED
                 then (case set_entry m1 b a v of
                         Inl e \<Rightarrow> g\<lparr>adj_matrix := m1\<rparr>
                       | Inr m2 \<Rightarrow> g\<lparr>adj_matrix := m2\<rparr>)
                 else g\<lparr>adj_matrix := m1\<rparr>))"
proof (cases "set_entry (adj_matrix g) a b v")
  case (Inl e)
  then show ?thesis using assms by simp
next
  case (Inr m1)
  have wf: "wf_graph g" using assms by (simp add: inv_u_def)
  have sq: "square (adj_matrix g) (nat (gn g))" using wf by (simp add: wf_square)
  have sq1: "square m1 (nat (gn g))" using sq Inr by (rule set_entry_square_res)
  show ?thesis
  proof (cases "graph_type g = UNDIRECTED")
    case False
    then show ?thesis using Inr wf sq1 by (simp add: inv_u_def wf_square)
  next
    case True
    then have sym: "sym_m (adj_matrix g) (nat (gn g))" using assms by (simp add: inv_u_def)
    from set_entry_twice[OF sq Inr] obtain i j where ij: "i < nat (gn g)" "j < nat (gn g)"
      and m1: "m1 = (adj_matrix g)[i := (adj_matrix g ! i)[j := v]]"
      and s2: "set_entry m1 b a v = Inr (m1[j := (m1 ! j)[i := v]])"
      by blast
    have sq2: "square (m1[j := (m1 ! j)[i := v]]) (nat (gn g))"
      using sq1 by (rule upd2_square)
    show ?thesis
      using Inr True s2 wf sq2 set_both_sym[OF sq sym ij m1]
      by (simp add: inv_u_def wf_square)
  qed
qed

lemma remove_edge_inv: "inv_u g \<Longrightarrow> inv_u (fst (remove_edge g a b))"
  using set_pair_inv[where g=g and a=a and b=b and v=None]
  by (auto simp: remove_edge_def split: sum.splits if_splits)

lemma add_edge_inv:
  assumes "inv_u g"
  shows "inv_u (fst (add_edge g a b w))"
proof -
  define r where "r = (if max a b \<ge> gn g then add_vertex g (max a b) else (g, None))"
  have i1: "inv_u (fst r)" using assms add_vertex_inv[of g "max a b"] by (simp add: r_def)
  have "fst (add_edge g a b w) =
     (case snd r of
        Some e \<Rightarrow> fst r
      | None \<Rightarrow>
         (case set_entry (adj_matrix (fst r)) a b (Some w) of
            Inl e \<Rightarrow> fst r
          | Inr m1 \<Rightarrow>
              (if graph_type (fst r) = UNDIRECTED
               then (case set_entry m1 b a (Some w) of
                       Inl e \<Rightarrow> (fst r)\<lparr>adj_matrix := m1\<rparr>
                     | Inr m2 \<Rightarrow> (fst r)\<lparr>adj_matrix := m2\<rparr>)
               else (fst r)\<lparr>adj_matrix := m1\<rparr>)))"
    unfolding add_edge_def Let_def r_def[symmetric]
    by (simp split: option.splits sum.splits)
  then show ?thesis
    using set_pair_inv[OF i1, where a=a and b=b and v="Some w"] i1
    by (cases "snd r") simp_all
qed

lemma apply_op_inv: "inv_u g \<Longrightarrow> inv_u (apply_op g op)"
  by (cases op) (simp_all add: add_vertex_inv add_edge_inv remove_vertex_inv remove_edge_inv)

lemma run_ops_inv: "inv_u g \<Longrightarrow> inv_u (run_ops g ops)"
  unfolding run_ops_def
  by (induction ops arbitrary: g) (simp_all add: apply_op_inv)



lemma init_sym: "sym_m (init_matrix k) (nat k)"
  by (auto simp: sym_m_def init_nth)

lemma Graph_init_inv: "0 \<le> k \<Longrightarrow> inv_u (Graph_init t k)"
  by (simp add: inv_u_def wf_square Graph_init_def init_square init_sym)

lemma load_edges_inv:
  "load_edges t m es = Inr m' \<Longrightarrow> square m N \<Longrightarrow> (t = UNDIRECTED \<longrightarrow> sym_m m N) \<Longrightarrow>
   square m' N \<and> (t = UNDIRECTED \<longrightarrow> sym_m m' N)"
proof (induction es arbitrary: m)
  case Nil
  then show ?case by simp
next
  case (Cons e es)
  obtain a b w where e: "e = (a, b, w)" by (cases e)
  from Cons.prems(1) obtain m1 where s1: "set_entry m a b (Some w) = Inr m1"
    by (auto simp: e split: sum.splits)
  have sq1: "square m1 N" using Cons.prems(2) s1 by (rule set_entry_square_res)
  show ?case
  proof (cases "t = UNDIRECTED")
    case False
    then show ?thesis using Cons.IH[of m1] Cons.prems(1) s1 sq1 by (simp add: e)
  next
    case True
    from set_entry_twice[OF Cons.prems(2) s1] obtain i j where ij: "i < N" "j < N"
      and m1: "m1 = m[i := (m ! i)[j := Some w]]"
      and s2: "set_entry m1 b a (Some w) = Inr (m1[j := (m1 ! j)[i := Some w]])"
      by blast
    have sq2: "square (m1[j := (m1 ! j)[i := Some w]]) N" using sq1 by (rule upd2_square)
    have sym2: "sym_m (m1[j := (m1 ! j)[i := Some w]]) N"
      using set_both_sym[OF Cons.prems(2) _ ij m1] Cons.prems(3) True by simp
    show ?thesis
      using Cons.IH[OF _ sq2] Cons.prems(1) s1 s2 True sym2 by (simp add: e)
  qed
qed

lemma Graph_load_inv:
  assumes "0 \<le> k" "Graph_load t k es = Inr g"
  shows "inv_u g"
proof -
  from assms(2) obtain m where m: "load_edges t (init_matrix k) es = Inr m"
    and g: "g = \<lparr>graph_type = t, gn = k, adj_matrix = m\<rparr>"
    by (auto simp: Graph_load_def split: sum.splits)
  from load_edges_inv[OF m init_square] init_sym
  show ?thesis using assms(1) by (simp add: g inv_u_def wf_square)
qed

lemma reachable_inv:
  assumes "0 \<le> k"
    and "g0 = Graph_init t k \<or> Graph_load t k es = Inr g0"
  shows "inv_u (run_ops g0 ops)"
proof -
  have "inv_u g0" using assms Graph_init_inv Graph_load_inv by blast
  then show ?thesis by (rule run_ops_inv)
qed

lemma weight_wf:
  assumes "wf_graph g"
  shows "weight g a b =
     Inr (if 0 \<le> a \<and> a < gn g \<and> 0 \<le> b \<and> b < gn g
          then adj_matrix g ! nat a ! nat b else None)"
proof -
  have sq: "square (adj_matrix g) (nat (gn g))" using assms by (simp add: wf_square)
  show ?thesis
    using sq by (auto simp: weight_def get_entry_def py_get_def py_index_def square_def)
qed




text \<open>
  Claim C10. On every graph the constructors and mutators produce (vertex count
  \<open>k \<ge> 0\<close> at construction), \<open>Graph.weight(a, b)\<close> never raises, for any integers \<open>a\<close> and
  \<open>b\<close>: it returns the stored matrix entry when both indices lie in \<open>[0, n)\<close> and \<open>None\<close>
  for every other pair, negative indices and indices at or above \<open>n\<close> included.
\<close>

theorem weight_total:
  assumes "0 \<le> k"
    and "g0 = Graph_init t k \<or> Graph_load t k es = Inr g0"
    and "g = run_ops g0 ops"
  shows "weight g a b =
     Inr (if 0 \<le> a \<and> a < gn g \<and> 0 \<le> b \<and> b < gn g
          then adj_matrix g ! nat a ! nat b else None)"
proof -
  have "inv_u g" unfolding assms(3) using assms(1,2) by (rule reachable_inv)
  then have "wf_graph g" by (simp add: inv_u_def)
  then show ?thesis by (rule weight_wf)
qed

theorem weight_total_witness:
  "weight (run_ops (Graph_init DIRECTED 2) [AddEdge 0 1 (Fin 3)]) (- 1) 5 = Inr None \<and>
   weight (run_ops (Graph_init DIRECTED 2) [AddEdge 0 1 (Fin 3)]) 0 2 = Inr None \<and>
   weight (run_ops (Graph_init DIRECTED 2) [AddEdge 0 1 (Fin 3)]) 0 1 = Inr (Some (Fin 3)) \<and>
   weight (run_ops (Graph_init DIRECTED 2) [AddEdge 0 1 (Fin 3)]) 1 0 = Inr None"
proof -
  let ?g = "run_ops (Graph_init DIRECTED 2) [AddEdge 0 1 (Fin 3)]"
  have h: "(0::int) \<le> 2"
    "Graph_init DIRECTED 2 = Graph_init DIRECTED 2 \<or>
     Graph_load DIRECTED 2 [] = Inr (Graph_init DIRECTED 2)"
    "?g = ?g"
    by simp_all
  have n: "gn ?g = 2" by code_simp
  have e: "adj_matrix ?g ! nat 0 ! nat 1 = Some (Fin 3)" "adj_matrix ?g ! nat 1 ! nat 0 = None"
    by code_simp+
  show ?thesis
    using weight_total[OF h, of "- 1" 5] weight_total[OF h, of 0 2]
          weight_total[OF h, of 0 1] weight_total[OF h, of 1 0] n e
    by simp
qed

text \<open>
  Claim C5, as the code has it. \<open>add_edge\<close> overwrites whatever the pair held and
  \<open>remove_edge\<close> stores \<open>None\<close>, so the pair of calls restores the prior state exactly when
  the pair held no edge before: for a well-formed graph, vertices \<open>a \<noteq> b\<close> both in
  \<open>[0, n)\<close> and no weight stored for \<open>(a, b)\<close> (nor for \<open>(b, a)\<close> in an undirected graph),
  \<open>add_edge(a, b, w)\<close> raises nothing and \<open>remove_edge(a, b)\<close> after it gives back the
  graph as it was, the diagonal included.
\<close>

theorem add_then_remove_edge_restores:
  assumes "wf_graph g" "0 \<le> a" "a < gn g" "0 \<le> b" "b < gn g" "a \<noteq> b"
    and "adj_matrix g ! nat a ! nat b = None"
    and "graph_type g = UNDIRECTED \<longrightarrow> adj_matrix g ! nat b ! nat a = None"
  shows "snd (add_edge g a b w) = None \<and>
         remove_edge (fst (add_edge g a b w)) a b = (g, None)"
proof -
  let ?m = "adj_matrix g" and ?N = "nat (gn g)" and ?i = "nat a" and ?j = "nat b"
  have sq: "square ?m ?N" using assms(1) by (simp add: wf_square)
  have ia: "py_index ?N a = Some ?i" and ib: "py_index ?N b = Some ?j"
    using assms by (simp_all add: py_index_def)
  have l: "?i < length ?m" "?j < length ?m" "length (?m ! ?i) = ?N" "length (?m ! ?j) = ?N"
           "?i < ?N" "?j < ?N"
    using sq assms by (simp_all add: square_def)
  have hv: "\<not> gn g \<le> max a b" using assms by simp
  define m1 where "m1 = ?m[?i := (?m ! ?i)[?j := Some w]]"
  define m2 where "m2 = m1[?j := (m1 ! ?j)[?i := Some w]]"
  have sq1: "square m1 ?N" unfolding m1_def using sq by (rule upd2_square)
  have sq2: "square m2 ?N" unfolding m2_def using sq1 by (rule upd2_square)
  have s1: "set_entry ?m a b (Some w) = Inr m1"
    by (simp add: set_entry_square[OF sq] ia ib m1_def)
  have s2: "set_entry m1 b a (Some w) = Inr m2"
    by (simp add: set_entry_square[OF sq1] ia ib m2_def)
  have back1: "m1[?i := (m1 ! ?i)[?j := None]] = ?m"
    using l assms(7) by (simp add: m1_def list_update_same_conv[THEN iffD2])
  show ?thesis
  proof (cases "graph_type g = UNDIRECTED")
    case False
    have ae: "add_edge g a b w = (g\<lparr>adj_matrix := m1\<rparr>, None)"
      using hv s1 False by (simp add: add_edge_def Let_def)
    have "set_entry m1 a b None = Inr ?m"
      by (simp add: set_entry_square[OF sq1] ia ib back1)
    then show ?thesis
      using ae False assms(2-5) by (simp add: remove_edge_def)
  next
    case True
    have ae: "add_edge g a b w = (g\<lparr>adj_matrix := m2\<rparr>, None)"
      using hv s1 s2 True by (simp add: add_edge_def Let_def)
    define m3 where "m3 = m2[?i := (m2 ! ?i)[?j := None]]"
    define m4 where "m4 = m3[?j := (m3 ! ?j)[?i := None]]"
    have sq3: "square m3 ?N" unfolding m3_def using sq2 by (rule upd2_square)
    have sq4: "square m4 ?N" unfolding m4_def using sq3 by (rule upd2_square)
    have r1: "set_entry m2 a b None = Inr m3"
      by (simp add: set_entry_square[OF sq2] ia ib m3_def)
    have r2: "set_entry m3 b a None = Inr m4"
      by (simp add: set_entry_square[OF sq3] ia ib m4_def)
    have ent: "m4 ! p ! q = ?m ! p ! q" if "p < ?N" "q < ?N" for p q
    proof -
      have "m4 ! p ! q = (if (p = ?i \<and> q = ?j) \<or> (p = ?j \<and> q = ?i) then None else m2 ! p ! q)"
        using set_both_nth[OF sq2 l(5,6) that(1,2) m3_def] m4_def[symmetric]
        by (simp only:) presburger
      moreover have "m2 ! p ! q = (if (p = ?j \<and> q = ?i) \<or> (p = ?i \<and> q = ?j) then Some w else ?m ! p ! q)"
        using set_both_nth[OF sq l(5,6) that(1,2) m1_def] m2_def[symmetric]
        by (simp only:)
      ultimately show ?thesis using assms(7,8) True by auto
    qed
    have "m4 = ?m"
    proof (rule nth_equalityI)
      show "length m4 = length ?m" using sq4 sq by (simp add: square_def)
    next
      fix p assume p: "p < length m4"
      then have pN: "p < ?N" using sq4 by (simp add: square_def)
      show "m4 ! p = ?m ! p"
      proof (rule nth_equalityI)
        show "length (m4 ! p) = length (?m ! p)"
          using sq4 sq pN by (simp add: square_def)
      next
        fix q assume "q < length (m4 ! p)"
        then have "q < ?N" using sq4 pN by (simp add: square_def)
        then show "m4 ! p ! q = ?m ! p ! q" using ent pN by simp
      qed
    qed
    then show ?thesis
      using ae True assms(2-5) r1 r2 by (simp add: remove_edge_def)
  qed
qed

theorem add_then_remove_edge_restores_witness:
  "remove_edge (fst (add_edge (Graph_init UNDIRECTED 3) 0 2 (Fin 4))) 0 2 =
     (Graph_init UNDIRECTED 3, None)"
proof -
  have h: "wf_graph (Graph_init UNDIRECTED 3)"
    "(0::int) \<le> 0" "0 < gn (Graph_init UNDIRECTED 3)"
    "(0::int) \<le> 2" "2 < gn (Graph_init UNDIRECTED 3)" "(0::int) \<noteq> 2"
    "adj_matrix (Graph_init UNDIRECTED 3) ! nat 0 ! nat 2 = None"
    "graph_type (Graph_init UNDIRECTED 3) = UNDIRECTED \<longrightarrow>
       adj_matrix (Graph_init UNDIRECTED 3) ! nat 2 ! nat 0 = None"
    by code_simp+
  show ?thesis using add_then_remove_edge_restores[OF h, of "Fin 4"] by simp
qed

text \<open>The claim as it is written fails on a pair that already holds an edge: on the
  directed graph with the arc \<open>0 \<rightarrow> 1\<close> of weight 5, \<open>add_edge(0, 1, 7.0)\<close> then
  \<open>remove_edge(0, 1)\<close> leaves no arc where there was one.\<close>

theorem add_remove_existing_edge_counterexample:
  "wf_graph G_edge \<and>
   fst (remove_edge (fst (add_edge G_edge 0 1 (Fin 7))) 0 1) \<noteq> G_edge \<and>
   weight G_edge 0 1 = Inr (Some (Fin 5)) \<and>
   weight (fst (remove_edge (fst (add_edge G_edge 0 1 (Fin 7))) 0 1)) 0 1 = Inr None"
  by code_simp

section \<open>Properties of the shortest-path and spanning-tree searches\<close>

text \<open>
  Claim C9. For every graph, \<open>dijkstra\<close> called with \<open>start\<close> or \<open>end\<close> outside \<open>[0, n)\<close>
  returns the pair \<open>(None, [])\<close> at once; and this sentinel is distinct from every other
  answer: with both vertices in range \<open>dijkstra\<close> never returns a \<open>None\<close> distance, so the
  unreachable answer \<open>(inf, [])\<close> cannot be mistaken for it.
\<close>

theorem dijkstra_out_of_range_sentinel:
  "(\<not> (0 \<le> start \<and> start < graph_size g \<and> 0 \<le> end_v \<and> end_v < graph_size g) \<longrightarrow>
      dijkstra g start end_v = Some (Inr (None, []))) \<and>
   (0 \<le> start \<and> start < graph_size g \<and> 0 \<le> end_v \<and> end_v < graph_size g \<longrightarrow>
      (\<forall>p. dijkstra g start end_v \<noteq> Some (Inr (None, p)))) \<and>
   (None, []) \<noteq> (Some PInf, [] :: int list)"
proof (intro conjI impI allI)
  assume "\<not> (0 \<le> start \<and> start < graph_size g \<and> 0 \<le> end_v \<and> end_v < graph_size g)"
  then show "dijkstra g start end_v = Some (Inr (None, []))"
    by (simp add: dijkstra_def Let_def)
next
  fix p
  assume "0 \<le> start \<and> start < graph_size g \<and> 0 \<le> end_v \<and> end_v < graph_size g"
  then show "dijkstra g start end_v \<noteq> Some (Inr (None, p))"
    by (simp add: dijkstra_def Let_def split: option.splits sum.splits prod.splits)
next
  show "(None, []) \<noteq> (Some PInf, [] :: int list)" by simp
qed

theorem dijkstra_out_of_range_sentinel_witness:
  "dijkstra (Graph_init UNDIRECTED 2) 5 0 = Some (Inr (None, [])) \<and>
   dijkstra (Graph_init UNDIRECTED 2) 0 (- 1) = Some (Inr (None, [])) \<and>
   dijkstra (Graph_init UNDIRECTED 2) 0 1 \<noteq> Some (Inr (None, []))"
proof -
  have n: "graph_size (Graph_init UNDIRECTED 2) = 2" by code_simp
  show ?thesis
    using dijkstra_out_of_range_sentinel[of 5 "Graph_init UNDIRECTED 2" 0]
          dijkstra_out_of_range_sentinel[of 0 "Graph_init UNDIRECTED 2" "- 1"]
          dijkstra_out_of_range_sentinel[of 0 "Graph_init UNDIRECTED 2" 1]
    by (simp add: n)
qed

text \<open>
  Claim C4 on the undirected graph with two vertices and no edge, from \<open>start = 0\<close>:
  vertex 1 is unreachable. \<open>dijkstra(g, 0, 1)\<close> returns \<open>(inf, [])\<close>, but
  \<open>dijkstra_all(g, 0)\<close> records \<open>(inf, [1])\<close> for vertex 1: its path loop starts by
  appending the target and has no test for an infinite distance.
\<close>

theorem dijkstra_all_unreachable_path:
  "dijkstra (Graph_init UNDIRECTED 2) 0 1 = Some (Inr (Some PInf, [])) \<and>
   dijkstra_all (Graph_init UNDIRECTED 2) 0 = Some (Inr [(Fin 0, [0]), (PInf, [1])])"
proof
  show "dijkstra (Graph_init UNDIRECTED 2) 0 1 = Some (Inr (Some PInf, []))"
    by code_simp
  show "dijkstra_all (Graph_init UNDIRECTED 2) 0 = Some (Inr [(Fin 0, [0]), (PInf, [1])])"
    by code_simp
qed

text \<open>
  Claim C6 on the directed graph whose only arc \<open>0 \<rightarrow> 1\<close> has weight \<open>0.0\<close>: the
  weights are \<open>weight(0, 1) = 0.0\<close> and \<open>weight(1, 0) = None\<close>, so the minimum the claim
  describes is \<open>min(0.0, inf) = 0.0\<close>; \<open>prim\<close> considers \<open>inf\<close>, because \<open>0.0 or inf\<close> is
  \<open>inf\<close>, and leaves vertex 1 out of the tree.
\<close>

theorem prim_zero_weight_considered_absent:
  "weight G_zero 0 1 = Inr (Some (Fin 0)) \<and> weight G_zero 1 0 = Inr None \<and>
   min_weight G_zero 0 1 = Inr PInf \<and> min (Fin 0) PInf = Fin 0 \<and>
   prim G_zero 0 = Some (Inr [[0], [1]])"
proof (intro conjI)
  show "weight G_zero 0 1 = Inr (Some (Fin 0))" by code_simp
  show "weight G_zero 1 0 = Inr None" by code_simp
  show "min_weight G_zero 0 1 = Inr PInf" by code_simp
  show "min (Fin 0) PInf = Fin 0" by code_simp
  show "prim G_zero 0 = Some (Inr [[0], [1]])" by code_simp
qed

section \<open>The specification's scenarios for \<open>edmonds_karp\<close> and \<open>a_star\<close>\<close>

text \<open>
  Claim C1 on its own input, \<open>n = 4\<close>, \<open>source = 0\<close>, \<open>sink = 3\<close> and the edges
  \<open>(0,1,3), (0,2,2), (1,3,2), (2,3,3), (1,2,1)\<close>: \<open>edmonds_karp\<close> returns the flow value
  \<open>0.0\<close>, every edge with flow \<open>0.0\<close>, where the maximum flow is 4. Every residual edge
  stored in \<open>graph[v]\<close> has \<open>to = v\<close>, so the first BFS skips all edges of the source
  (\<open>edge.to == source\<close>) and finds no augmenting path.
\<close>

theorem edmonds_karp_scenario_flow_zero:
  "edmonds_karp 4 scenario_edges 0 3 =
     Some (Inr (Fin 0,
       [\<lparr>to = 0, rev_i = 1, capacity = Fin 3, flow = Fin 0\<rparr>,
        \<lparr>to = 0, rev_i = 2, capacity = Fin 2, flow = Fin 0\<rparr>,
        \<lparr>to = 1, rev_i = 3, capacity = Fin 2, flow = Fin 0\<rparr>,
        \<lparr>to = 2, rev_i = 3, capacity = Fin 3, flow = Fin 0\<rparr>,
        \<lparr>to = 1, rev_i = 2, capacity = Fin 1, flow = Fin 0\<rparr>]))"
  by code_simp

theorem edmonds_karp_scenario_flow_zero_witness:
  "map_option (map_sum id fst) (edmonds_karp 4 scenario_edges 0 3) = Some (Inr (Fin 0)) \<and>
   Fin 0 \<noteq> Fin 4"
  using edmonds_karp_scenario_flow_zero by simp

text \<open>
  Claim C2 on \<open>n = 2\<close> and the single input edge \<open>(0, 1, 5.0)\<close>: the residual network
  holds in \<open>graph[0]\<close> the forward edge with capacity 5 and flow 0, but its target is 0,
  not 1; in \<open>graph[1]\<close> the backward edge with capacity 0 and flow 0, but its target is
  1, not 0; and the twin index of each edge leads back to the edge itself, not to the
  other edge of the pair.
\<close>

theorem residual_network_edges_point_to_themselves:
  "residual_network 2 [(0, 1, Fin 5)] =
     Inr ([[\<lparr>to = 0, rev_i = 0, capacity = Fin 5, flow = Fin 0\<rparr>],
           [\<lparr>to = 1, rev_i = 0, capacity = Fin 0, flow = Fin 0\<rparr>]], [(0, 0)]) \<and>
   twin [[\<lparr>to = 0, rev_i = 0, capacity = Fin 5, flow = Fin 0\<rparr>],
         [\<lparr>to = 1, rev_i = 0, capacity = Fin 0, flow = Fin 0\<rparr>]]
        \<lparr>to = 0, rev_i = 0, capacity = Fin 5, flow = Fin 0\<rparr> =
     Inr \<lparr>to = 0, rev_i = 0, capacity = Fin 5, flow = Fin 0\<rparr> \<and>
   twin [[\<lparr>to = 0, rev_i = 0, capacity = Fin 5, flow = Fin 0\<rparr>],
         [\<lparr>to = 1, rev_i = 0, capacity = Fin 0, flow = Fin 0\<rparr>]]
        \<lparr>to = 1, rev_i = 0, capacity = Fin 0, flow = Fin 0\<rparr> =
     Inr \<lparr>to = 1, rev_i = 0, capacity = Fin 0, flow = Fin 0\<rparr>"
  by code_simp

lemma walk_back_raises:
  assumes "walk_back prev cur pth = Some y"
  shows "y = Inl KeyError"
  by (rule walk_back.raw_induct[where P="\<lambda>_ _ _ y. y = Inl KeyError", OF _ assms])
     (auto simp: truthy_def split: option.splits)

lemma a_star_no_path:
  assumes "a_star grid start goal heuristic = Some (Inr r)"
  shows "path r = [] \<and> path_len r = PInf"
  using assms
  by (auto simp: a_star_def unreachable_result_def Let_def
           split: if_splits sum.splits option.splits prod.splits
           dest: walk_back_raises)

text \<open>
  Claim C3 on its own input, the \<open>3 \<times> 3\<close> grid of ones with start \<open>(0,0)\<close> and goal
  \<open>(2,2)\<close>: with the Manhattan heuristic the search reaches the goal at cost 4 and then
  \<open>a_star\<close> raises \<open>KeyError\<close> in the path loop, at \<open>prev[start]\<close>; with the Euclidean
  heuristic it returns no path either (the path loop has no exit but the exception).
\<close>

theorem a_star_scenario_raises:
  "a_star grid3 (0, 0) (2, 2) manhattan = Some (Inl KeyError) \<and>
   \<not> (\<exists>r. a_star grid3 (0, 0) (2, 2) euclidean = Some (Inr r) \<and> path r \<noteq> [])"
proof
  show "a_star grid3 (0, 0) (2, 2) manhattan = Some (Inl KeyError)"
    by code_simp
  show "\<not> (\<exists>r. a_star grid3 (0, 0) (2, 2) euclidean = Some (Inr r) \<and> path r \<noteq> [])"
    using a_star_no_path by blast
qed

section \<open>Properties of the bipartite matcher\<close>


lemma py_get_vertex: "vertex (length xs) i \<Longrightarrow> py_get xs i = Inr (xs ! nat i)"
  by (simp add: py_get_def py_index_def vertex_def)

lemma py_set_vertex: "vertex (length xs) i \<Longrightarrow> py_set xs i v = Inr (xs[nat i := v])"
  by (simp add: py_set_def py_index_def vertex_def)

lemma vertex_not_m1: "vertex n x \<Longrightarrow> x \<noteq> - 1"
  by (simp add: vertex_def)

lemma set_pair_assign:
  "lens n s \<Longrightarrow> vertex n v \<Longrightarrow> vertex n u \<Longrightarrow> set_pair v u s = Inr (assign v u s)"
  by (simp add: set_pair_def assign_def lens_def py_set_vertex)

lemma lens_assign [simp]: "lens n (assign v u s) = lens n s"
  by (simp add: lens_def assign_def)

lemma DV_assign [simp]: "DV (assign v u s) w = DV s w"
  by (simp add: DV_def assign_def)

lemma PV_assign:
  "lens n s \<Longrightarrow> vertex n v \<Longrightarrow> vertex n w \<Longrightarrow>
   PV (assign v u s) w = (if w = v then u else PV s w)"
  by (auto simp: PV_def assign_def lens_def vertex_def nth_list_update)

lemma PU_assign:
  "lens n s \<Longrightarrow> vertex n u \<Longrightarrow> vertex n x \<Longrightarrow>
   PU (assign v u s) x = (if x = u then v else PU s x)"
  by (auto simp: PU_def assign_def lens_def vertex_def nth_list_update)

lemma adj_ok_vertex: "adj_ok n fa \<Longrightarrow> vertex n v \<Longrightarrow> u \<in> set (fa ! nat v) \<Longrightarrow> vertex n u"
  by (auto simp: adj_ok_def vertex_def)

lemma I1D:
  "I1 n fa s \<Longrightarrow> vertex n w \<Longrightarrow> PV s w \<noteq> - 1 \<Longrightarrow>
   vertex n (PV s w) \<and> PU s (PV s w) = w \<and> PV s w \<in> set (fa ! nat w)"
  by (simp add: I1_def)

lemma I2xD:
  "I2x n s y \<Longrightarrow> vertex n x \<Longrightarrow> x \<noteq> y \<Longrightarrow> PU s x \<noteq> - 1 \<Longrightarrow>
   vertex n (PU s x) \<and> PV s (PU s x) = x"
  by (simp add: I2x_def)

lemma I2D:
  "I2x n s (- 1) \<Longrightarrow> vertex n x \<Longrightarrow> PU s x \<noteq> - 1 \<Longrightarrow>
   vertex n (PU s x) \<and> PV s (PU s x) = x"
  by (simp add: I2x_def vertex_def)

lemma F1D: "F1 n v s s' \<Longrightarrow> vertex n w \<Longrightarrow> w \<noteq> v \<Longrightarrow> DV s w \<le> DV s v \<Longrightarrow> PV s' w = PV s w"
  by (simp add: F1_def)

lemma F2D:
  "F2 n v s s' \<Longrightarrow> vertex n x \<Longrightarrow> PU s' x \<noteq> PU s x \<Longrightarrow>
   PU s x = - 1 \<or> DV s v < DV s (PU s x)"
  by (simp add: F2_def)

text \<open>First success case: the right vertex is free.\<close>

lemma assign_free:
  assumes pre: "lens n s" "I1 n fa s" "I2x n s (- 1)" "vertex n v"
    and u: "vertex n u" "u \<in> set (fa ! nat v)" "PU s u = - 1"
  shows "post_ok n fa v s (assign v u s)"
proof -
  let ?s = "assign v u s"
  have pv: "\<And>w. vertex n w \<Longrightarrow> PV ?s w = (if w = v then u else PV s w)"
    using pre(1,4) by (simp add: PV_assign)
  have pu: "\<And>x. vertex n x \<Longrightarrow> PU ?s x = (if x = u then v else PU s x)"
    using pre(1) u(1) by (simp add: PU_assign)
  have u_ne: "PV s w \<noteq> u" if "vertex n w" "PV s w \<noteq> - 1" for w
  proof
    assume "PV s w = u"
    then have "PU s u = w" using I1D[OF pre(2) that] by simp
    then show False using u(3) that(1) by (simp add: vertex_def)
  qed
  have i1: "I1 n fa ?s"
    unfolding I1_def
  proof (intro allI impI)
    fix w assume "vertex n w \<and> PV ?s w \<noteq> - 1"
    then have w: "vertex n w" "PV ?s w \<noteq> - 1" by simp_all
    show "vertex n (PV ?s w) \<and> PU ?s (PV ?s w) = w \<and> PV ?s w \<in> set (fa ! nat w)"
    proof (cases "w = v")
      case True
      then show ?thesis using w u by (simp add: pv pu)
    next
      case False
      then have p: "PV s w \<noteq> - 1" using w by (simp add: pv)
      show ?thesis using False w I1D[OF pre(2) w(1) p] u_ne[OF w(1) p] by (simp add: pv pu)
    qed
  qed
  have i2: "I2x n ?s (PV s v)"
    unfolding I2x_def
  proof (intro allI impI)
    fix x assume "vertex n x \<and> x \<noteq> PV s v \<and> PU ?s x \<noteq> - 1"
    then have x: "vertex n x" "x \<noteq> PV s v" "PU ?s x \<noteq> - 1" by simp_all
    show "vertex n (PU ?s x) \<and> PV ?s (PU ?s x) = x"
    proof (cases "x = u")
      case True
      then show ?thesis using x pre(4) by (simp add: pv pu)
    next
      case False
      then have px: "PU s x \<noteq> - 1" using x by (simp add: pu)
      have q: "vertex n (PU s x)" "PV s (PU s x) = x"
        using I2D[OF pre(3) x(1) px] by simp_all
      then have "PU s x \<noteq> v" using x by auto
      then show ?thesis using False x q by (simp add: pv pu)
    qed
  qed
  have f1: "F1 n v s ?s" by (simp add: F1_def pv)
  have f2: "F2 n v s ?s" using u(3) by (auto simp: F2_def pu split: if_splits)
  have ne: "PV ?s v \<noteq> PV s v"
  proof
    assume "PV ?s v = PV s v"
    then have e: "PV s v = u" using pre(4) by (simp add: pv)
    then have "PV s v \<noteq> - 1" using u(1) by (auto simp: vertex_def)
    then show False using u_ne[OF pre(4)] e by simp
  qed
  have k: "keeps n s ?s" using u(1) by (auto simp: keeps_def pv vertex_def)
  have "PV ?s v \<noteq> - 1" using pre(4) u(1) by (auto simp: vertex_def pv)
  then show ?thesis using i1 i2 f1 f2 ne k by (simp add: post_ok_def)
qed

text \<open>Second success case: the partner \<open>p\<close> of the right vertex was re-matched by the
  inner call.\<close>

lemma assign_after:
  assumes pre: "lens n s" "I1 n fa s" "I2x n s (- 1)" "vertex n v" "DV s v < \<infinity>"
    and u: "vertex n u" "u \<in> set (fa ! nat v)" "PU s u = p" "p \<noteq> - 1" "DV s p = DV s v + 1"
    and inner: "lens n s1" "post_ok n fa p s s1"
  shows "post_ok n fa v s (assign v u s1)"
proof -
  let ?s = "assign v u s1"
  have p: "vertex n p" "PV s p = u" using I2D[OF pre(3) u(1)] u(3,4) by simp_all
  have lt: "DV s v < DV s p"
    using pre(5) u(5) by (cases "DV s v") (simp_all add: one_enat_def)
  then have pv_ne: "p \<noteq> v" by auto
  have i1': "I1 n fa s1" and i2': "I2x n s1 u" and f1': "F1 n p s s1" and f2': "F2 n p s s1"
    and pne: "PV s1 p \<noteq> u" and k': "keeps n s s1"
    using inner(2) p(2) by (simp_all add: post_ok_def)
  have pv: "\<And>w. vertex n w \<Longrightarrow> PV ?s w = (if w = v then u else PV s1 w)"
    using inner(1) pre(4) by (simp add: PV_assign)
  have pu: "\<And>x. vertex n x \<Longrightarrow> PU ?s x = (if x = u then v else PU s1 x)"
    using inner(1) u(1) by (simp add: PU_assign)
  have keep_v: "PV s1 v = PV s v"
    using F1D[OF f1' pre(4)] pv_ne lt by simp
  have pu_u: "PU s1 u = p"
  proof (rule ccontr)
    assume "PU s1 u \<noteq> p"
    then have "PU s1 u \<noteq> PU s u" using u(3) by simp
    from F2D[OF f2' u(1) this] show False using u(3,4) by simp
  qed
  have u_ne: "PV s1 w \<noteq> u" if "vertex n w" "PV s1 w \<noteq> - 1" for w
  proof
    assume e: "PV s1 w = u"
    then have "PU s1 u = w" using I1D[OF i1' that] by simp
    then have "w = p" using pu_u by simp
    then show False using pne e by simp
  qed
  have i1: "I1 n fa ?s"
    unfolding I1_def
  proof (intro allI impI)
    fix w assume "vertex n w \<and> PV ?s w \<noteq> - 1"
    then have w: "vertex n w" "PV ?s w \<noteq> - 1" by simp_all
    show "vertex n (PV ?s w) \<and> PU ?s (PV ?s w) = w \<and> PV ?s w \<in> set (fa ! nat w)"
    proof (cases "w = v")
      case True
      then show ?thesis using w u by (simp add: pv pu)
    next
      case False
      then have q: "PV s1 w \<noteq> - 1" using w by (simp add: pv)
      show ?thesis using False w I1D[OF i1' w(1) q] u_ne[OF w(1) q] by (simp add: pv pu)
    qed
  qed
  have i2: "I2x n ?s (PV s v)"
    unfolding I2x_def
  proof (intro allI impI)
    fix x assume "vertex n x \<and> x \<noteq> PV s v \<and> PU ?s x \<noteq> - 1"
    then have x: "vertex n x" "x \<noteq> PV s v" "PU ?s x \<noteq> - 1" by simp_all
    show "vertex n (PU ?s x) \<and> PV ?s (PU ?s x) = x"
    proof (cases "x = u")
      case True
      then show ?thesis using x pre(4) by (simp add: pv pu)
    next
      case False
      then have px: "PU s1 x \<noteq> - 1" using x by (simp add: pu)
      have q: "vertex n (PU s1 x)" "PV s1 (PU s1 x) = x"
        using I2xD[OF i2' x(1) False px] by simp_all
      have "PU s1 x \<noteq> v"
      proof
        assume "PU s1 x = v"
        then have "PV s1 v = x" using q by simp
        then show False using keep_v x(2) by simp
      qed
      then show ?thesis using False x q by (simp add: pv pu)
    qed
  qed
  have f1: "F1 n v s ?s"
    unfolding F1_def
  proof (intro allI impI)
    fix w assume "vertex n w \<and> w \<noteq> v \<and> DV s w \<le> DV s v"
    then have w: "vertex n w" "w \<noteq> v" "DV s w \<le> DV s v" by simp_all
    then have "w \<noteq> p" "DV s w \<le> DV s p" using lt by auto
    then have "PV s1 w = PV s w" using F1D[OF f1' w(1)] by simp
    then show "PV ?s w = PV s w" using w by (simp add: pv)
  qed
  have f2: "F2 n v s ?s"
    unfolding F2_def
  proof (intro allI impI)
    fix x assume "vertex n x \<and> PU ?s x \<noteq> PU s x"
    then have x: "vertex n x" "PU ?s x \<noteq> PU s x" by simp_all
    show "PU s x = - 1 \<or> DV s v < DV s (PU s x)"
    proof (cases "x = u")
      case True
      then show ?thesis using u(3) lt by simp
    next
      case False
      then have "PU s1 x \<noteq> PU s x" using x by (simp add: pu)
      from F2D[OF f2' x(1) this] show ?thesis using lt by auto
    qed
  qed
  have ne: "PV ?s v \<noteq> PV s v"
  proof
    assume "PV ?s v = PV s v"
    then have e: "PV s v = u" using pre(4) by (simp add: pv)
    then have "PV s v \<noteq> - 1" using u(1) by (auto simp: vertex_def)
    then have "PU s u = v" using I1D[OF pre(2,4)] e by simp
    then show False using u(3) pv_ne by simp
  qed
  have k: "keeps n s ?s" using k' u(1) by (auto simp: keeps_def pv vertex_def)
  have "PV ?s v \<noteq> - 1" using pre(4) u(1) by (auto simp: vertex_def pv)
  then show ?thesis using i1 i2 f1 f2 ne k by (simp add: post_ok_def)
qed


lemma same_pairs_PV: "same_pairs s s1 \<Longrightarrow> PV s1 w = PV s w"
  by (simp add: same_pairs_def PV_def)

lemma same_pairs_PU: "same_pairs s s1 \<Longrightarrow> PU s1 w = PU s w"
  by (simp add: same_pairs_def PU_def)

lemma same_pairs_I1: "same_pairs s s1 \<Longrightarrow> I1 n fa s1 = I1 n fa s"
  by (simp add: I1_def same_pairs_PV same_pairs_PU)

lemma same_pairs_I2x: "same_pairs s s1 \<Longrightarrow> I2x n s1 y = I2x n s y"
  by (simp add: I2x_def same_pairs_PV same_pairs_PU)

lemma same_pairs_trans: "same_pairs s s1 \<Longrightarrow> same_pairs s1 s2 \<Longrightarrow> same_pairs s s2"
  by (simp add: same_pairs_def)

lemma deeperD:
  "deeper n v s s1 \<Longrightarrow> vertex n w \<Longrightarrow> DV s1 w \<noteq> DV s w \<Longrightarrow> DV s1 w = \<infinity> \<and> DV s v < DV s w"
  by (simp add: deeper_def)

lemma dchangeD:
  "dchange n v s s1 \<Longrightarrow> vertex n w \<Longrightarrow> DV s1 w \<noteq> DV s w \<Longrightarrow>
   DV s1 w = \<infinity> \<and> (w = v \<or> DV s v < DV s w)"
  by (simp add: dchange_def)

lemma deeper_keeps:
  assumes "deeper n v s s1" "vertex n w" "DV s w \<le> DV s v"
  shows "DV s1 w = DV s w"
proof (rule ccontr)
  assume "DV s1 w \<noteq> DV s w"
  then have "DV s v < DV s w" using deeperD[OF assms(1,2)] by blast
  then show False using assms(3) by simp
qed

text \<open>A neighbour that was skipped, or whose inner call failed, leaves a state from
  which the rest of the loop behaves as from the state at its start.\<close>

lemma dfs_continue:
  assumes v: "vertex n v" and i2: "I2x n s (- 1)"
    and sp: "same_pairs s s1" and dp: "deeper n v s s1"
    and post: "dfs_post n fa v s1 r"
  shows "dfs_post n fa v s r"
proof (cases r)
  case (Inl e)
  then show ?thesis by (simp add: dfs_post_def)
next
  case (Inr bs)
  obtain ok s' where bs: "bs = (ok, s')" by (cases bs)
  have dv: "DV s1 v = DV s v" using deeper_keeps[OF dp v] by simp
  have l: "lens n s'" and dc: "dchange n v s1 s'"
    and rest: "if ok then post_ok n fa v s1 s' else same_pairs s1 s'"
    using post Inr bs by (simp_all add: dfs_post_def)
  have dc': "dchange n v s s'"
    unfolding dchange_def
  proof (intro allI impI)
    fix w assume "vertex n w \<and> DV s' w \<noteq> DV s w"
    then have w: "vertex n w" "DV s' w \<noteq> DV s w" by simp_all
    show "DV s' w = \<infinity> \<and> (w = v \<or> DV s v < DV s w)"
    proof (cases "DV s' w = DV s1 w")
      case True
      then have "DV s1 w \<noteq> DV s w" using w by simp
      from deeperD[OF dp w(1) this] True show ?thesis by simp
    next
      case False
      from dchangeD[OF dc w(1) False] have inf: "DV s' w = \<infinity>"
        and c: "w = v \<or> DV s1 v < DV s1 w" by simp_all
      show ?thesis
      proof (cases "w = v")
        case True
        then show ?thesis using inf by simp
      next
        case wv: False
        then have lt: "DV s v < DV s1 w" using c dv by simp
        show ?thesis
        proof (cases "DV s1 w = DV s w")
          case True
          then show ?thesis using inf lt by simp
        next
          case False
          from deeperD[OF dp w(1) False] show ?thesis using inf by simp
        qed
      qed
    qed
  qed
  show ?thesis
  proof (cases ok)
    case False
    then have "same_pairs s s'" using rest sp same_pairs_trans by auto
    then show ?thesis using Inr bs False l dc' by (simp add: dfs_post_def)
  next
    case True
    then have po: "post_ok n fa v s1 s'" using rest by simp
    have pvs: "PV s1 v = PV s v" using sp by (rule same_pairs_PV)
    have i1: "I1 n fa s'" and i2': "I2x n s' (PV s v)" and f1: "F1 n v s1 s'"
      and f2: "F2 n v s1 s'" and ne: "PV s' v \<noteq> PV s v" "PV s' v \<noteq> - 1"
      and k1: "keeps n s1 s'"
      using po pvs by (simp_all add: post_ok_def)
    have k: "keeps n s s'" using k1 same_pairs_PV[OF sp] by (simp add: keeps_def)
    have f1': "F1 n v s s'"
      unfolding F1_def
    proof (intro allI impI)
      fix w assume "vertex n w \<and> w \<noteq> v \<and> DV s w \<le> DV s v"
      then have w: "vertex n w" "w \<noteq> v" "DV s w \<le> DV s v" by simp_all
      have "DV s1 w = DV s w" using deeper_keeps[OF dp w(1,3)] .
      then have "DV s1 w \<le> DV s1 v" using w(3) dv by simp
      from F1D[OF f1 w(1,2) this] show "PV s' w = PV s w"
        using same_pairs_PV[OF sp] by simp
    qed
    have f2': "F2 n v s s'"
      unfolding F2_def
    proof (intro allI impI)
      fix x assume "vertex n x \<and> PU s' x \<noteq> PU s x"
      then have x: "vertex n x" "PU s' x \<noteq> PU s x" by simp_all
      then have "PU s' x \<noteq> PU s1 x" using same_pairs_PU[OF sp] by simp
      from F2D[OF f2 x(1) this]
      have c: "PU s x = - 1 \<or> DV s v < DV s1 (PU s x)"
        using same_pairs_PU[OF sp] dv by simp
      show "PU s x = - 1 \<or> DV s v < DV s (PU s x)"
      proof (cases "PU s x = - 1")
        case True
        then show ?thesis by simp
      next
        case False
        then have q: "vertex n (PU s x)" using I2D[OF i2 x(1)] by simp
        show ?thesis
        proof (cases "DV s1 (PU s x) = DV s (PU s x)")
          case True
          then show ?thesis using c False by simp
        next
          case ne: False
          from deeperD[OF dp q ne] show ?thesis by simp
        qed
      qed
    qed
    show ?thesis
      using Inr bs True l dc' i1 i2' f1' f2' ne k by (simp add: dfs_post_def post_ok_def)
  qed
qed

lemma dfs_fail_post:
  assumes "lens n s" "vertex n v"
  shows "dfs_post n fa v s (Inr (False, s\<lparr>dists := (dists s)[nat v := \<infinity>]\<rparr>))"
proof -
  have "dchange n v s (s\<lparr>dists := (dists s)[nat v := \<infinity>]\<rparr>)"
    using assms
    by (auto simp: dchange_def DV_def lens_def vertex_def nth_list_update split: if_splits)
  then show ?thesis
    using assms by (simp add: dfs_post_def lens_def same_pairs_def)
qed

lemma dchange_assign:
  assumes "dchange n p s s1" "DV s v < DV s p"
  shows "dchange n v s (assign v u s1)"
  using assms unfolding dchange_def
  by (metis DV_assign order_less_trans)

lemma dchange_deeper:
  assumes "dchange n p s s1" "DV s v < DV s p"
  shows "deeper n v s s1"
  using assms unfolding dchange_def deeper_def
  by (metis order_less_trans)

lemma dfs_loop_post:
  assumes run: "dfs_loop depth fa v us s = Some r" and pre: "dfs_pre n fa v us s"
  shows "dfs_post n fa v s r"
proof -
  have "dfs_pre n fa v us s \<longrightarrow> dfs_post n fa v s r"
  proof (rule dfs_loop.raw_induct
      [where P="\<lambda>depth fa v us s r. dfs_pre n fa v us s \<longrightarrow> dfs_post n fa v s r", OF _ run],
      goal_cases)
    case (1 f depth fa v us s r)
    show ?case
    proof
      assume pre: "dfs_pre n fa v us s"
      then have ok: "adj_ok n fa" and l: "lens n s" and i1: "I1 n fa s" and i2: "I2x n s (- 1)"
        and v: "vertex n v" and sub: "set us \<subseteq> set (fa ! nat v)" and fin: "DV s v < \<infinity>"
        by (simp_all add: dfs_pre_def)
      have lv: "vertex (length (dists s)) v" "vertex (length (pair_v s)) v"
        using l v by (simp_all add: lens_def)
      show "dfs_post n fa v s r"
      proof (cases us)
        case Nil
        then have "r = Inr (False, s\<lparr>dists := (dists s)[nat v := \<infinity>]\<rparr>)"
          using 1(2) lv by (simp add: py_set_vertex)
        then show ?thesis using dfs_fail_post[OF l v] by simp
      next
        case (Cons u us1)
        have u: "vertex n u" "u \<in> set (fa ! nat v)"
          using sub Cons adj_ok_vertex[OF ok v] by auto
        have sub1: "set us1 \<subseteq> set (fa ! nat v)" using sub Cons by simp
        have gu: "py_get (pair_u s) u = Inr (PU s u)"
          using l u(1) by (simp add: py_get_vertex lens_def PU_def)
        show ?thesis
        proof (cases "PU s u = - 1")
          case True
          then have "r = Inr (True, assign v u s)"
            using 1(2) Cons gu set_pair_assign[OF l v u(1)] by simp
          moreover have "dchange n v s (assign v u s)" by (simp add: dchange_def)
          ultimately show ?thesis
            using assign_free[OF l i1 i2 v u True] l by (simp add: dfs_post_def)
        next
          case False
          define p where "p = PU s u"
          have p: "vertex n p" "p \<noteq> - 1" "PU s u = p"
            using I2D[OF i2 u(1) False] False by (simp_all add: p_def)
          have gp: "py_get (dists s) p = Inr (DV s p)" "py_get (dists s) v = Inr (DV s v)"
            "py_get fa p = Inr (fa ! nat p)"
            using l p(1) v ok by (simp_all add: py_get_vertex lens_def DV_def adj_ok_def)
          show ?thesis
          proof (cases "DV s p = DV s v + 1")
            case skip: False
            then have "f depth fa v us1 s = Some r"
              using 1(2) Cons gu gp p by simp
            moreover have "dfs_pre n fa v us1 s"
              using pre sub1 by (simp add: dfs_pre_def)
            ultimately show ?thesis using 1(1) by blast
          next
            case eq: True
            show ?thesis
            proof (cases "depth = 0")
              case True
              then have "r = Inl RecursionError" using 1(2) Cons gu gp p eq by simp
              then show ?thesis by (simp add: dfs_post_def)
            next
              case deep: False
              have lt: "DV s v < DV s p"
                using fin eq by (cases "DV s v") (simp_all add: one_enat_def)
              have finp: "DV s p < \<infinity>"
                using fin eq by (cases "DV s v") (simp_all add: one_enat_def)
              from 1(2) obtain r1 where r1: "f (depth - 1) fa p (fa ! nat p) s = Some r1"
                and cont: "(case r1 of Inl e \<Rightarrow> Some (Inl e)
                            | Inr (ok, s1) \<Rightarrow>
                                if ok then (case set_pair v u s1 of Inl e \<Rightarrow> Some (Inl e)
                                            | Inr s2 \<Rightarrow> Some (Inr (True, s2)))
                                else f depth fa v us1 s1) = Some r"
                using Cons gu gp p eq deep by (auto simp: bind_eq_Some_conv)
              have "dfs_pre n fa p (fa ! nat p) s"
                using ok l i1 i2 p(1) finp by (simp add: dfs_pre_def)
              then have post1: "dfs_post n fa p s r1" using 1(1)[OF r1] by simp
              show ?thesis
              proof (cases r1)
                case (Inl e)
                then show ?thesis using cont by (auto simp: dfs_post_def)
              next
                case (Inr bs)
                obtain b s1 where bs: "bs = (b, s1)" by (cases bs)
                have l1: "lens n s1" and dc1: "dchange n p s s1"
                  and rest: "if b then post_ok n fa p s s1 else same_pairs s s1"
                  using post1 Inr bs by (simp_all add: dfs_post_def)
                show ?thesis
                proof (cases b)
                  case True
                  then have po: "post_ok n fa p s s1" using rest by simp
                  have "r = Inr (True, assign v u s1)"
                    using cont Inr bs True set_pair_assign[OF l1 v u(1)] by simp
                  then show ?thesis
                    using assign_after[OF l i1 i2 v fin u p(3,2) eq l1 po]
                          dchange_assign[OF dc1 lt] l1
                    by (simp add: dfs_post_def)
                next
                  case False
                  then have sp: "same_pairs s s1" using rest by simp
                  have dp: "deeper n v s s1" using dc1 lt by (rule dchange_deeper)
                  have dv: "DV s1 v = DV s v" using deeper_keeps[OF dp v] by simp
                  have run1: "f depth fa v us1 s1 = Some r" using cont Inr bs False by simp
                  have "dfs_pre n fa v us1 s1"
                    using ok l1 i1 i2 v sub1 fin dv same_pairs_I1[OF sp] same_pairs_I2x[OF sp]
                    by (simp add: dfs_pre_def)
                  then have "dfs_post n fa v s1 r" using 1(1)[OF run1] by simp
                  then show ?thesis using dfs_continue[OF v i2 sp dp] by simp
                qed
              qed
            qed
          qed
        qed
      qed
    qed
  qed
  then show ?thesis using pre by simp
qed


text \<open>The layering BFS: free left vertices get distance 0 and keep it.\<close>

lemma bfs_init_post:
  assumes "bfs_init pv vs d dq = Inr (d1, dq1)" "length d = n" "length pv = n"
    "\<forall>v\<in>set vs. vertex n v"
  shows "length d1 = n \<and>
    (\<forall>w. vertex n w \<longrightarrow>
       d1 ! nat w = (if w \<in> set vs then (if pv ! nat w = - 1 then 0 else \<infinity>) else d ! nat w))"
  using assms
proof (induction vs arbitrary: d dq)
  case Nil
  then show ?case by simp
next
  case (Cons v vs)
  have v: "vertex n v" using Cons.prems(4) by simp
  define d' where "d' = d[nat v := (if pv ! nat v = - 1 then 0 else \<infinity>)]"
  have run: "\<exists>dq'. bfs_init pv vs d' dq' = Inr (d1, dq1)"
    using Cons.prems(1,2,3) v
    by (auto simp: py_get_vertex py_set_vertex d'_def split: if_splits)
  then obtain dq' where run': "bfs_init pv vs d' dq' = Inr (d1, dq1)" by blast
  have len: "length d' = n" using Cons.prems(2) by (simp add: d'_def)
  have IH: "length d1 = n \<and>
    (\<forall>w. vertex n w \<longrightarrow>
       d1 ! nat w = (if w \<in> set vs then (if pv ! nat w = - 1 then 0 else \<infinity>) else d' ! nat w))"
    using Cons.IH[OF run' len Cons.prems(3)] Cons.prems(4) by simp
  have d'w: "\<And>w. vertex n w \<Longrightarrow>
      d' ! nat w = (if w = v then (if pv ! nat v = - 1 then 0 else \<infinity>) else d ! nat w)"
    using Cons.prems(2) v by (auto simp: d'_def vertex_def nth_list_update)
  show ?case using IH d'w by auto
qed


lemma only_inf_refl: "only_inf d d"
  by (simp add: only_inf_def)

lemma only_inf_trans: "only_inf d d1 \<Longrightarrow> only_inf d1 d2 \<Longrightarrow> only_inf d d2"
  unfolding only_inf_def by metis

lemma only_inf_set:
  assumes "py_get d i = Inr \<infinity>" "py_set d i x = Inr d1"
  shows "only_inf d d1"
proof -
  from assms obtain k where k: "py_index (length d) i = Some k" "d ! k = \<infinity>" "d1 = d[k := x]"
    by (auto simp: py_get_def py_set_def split: option.splits)
  have "d[k := x] ! j \<noteq> d ! j \<Longrightarrow> d ! j = \<infinity>" for j
    using k(2) by (cases "j = k") simp_all
  then show ?thesis using k(3) by (simp add: only_inf_def)
qed

lemma bfs_scan_only_inf:
  "bfs_scan pu_arr v us d dq found = Inr (d1, dq1, found1) \<Longrightarrow> only_inf d d1"
proof (induction us arbitrary: d dq found)
  case Nil
  then show ?case by (simp add: only_inf_refl)
next
  case (Cons u us)
  show ?case
  proof (cases "py_get pu_arr u")
    case (Inl e)
    then show ?thesis using Cons.prems by simp
  next
    case (Inr pu)
    show ?thesis
    proof (cases "pu = - 1")
      case True
      then show ?thesis using Cons.prems Inr Cons.IH by simp
    next
      case False
      show ?thesis
      proof (cases "py_get d pu")
        case (Inl e)
        then show ?thesis using Cons.prems Inr False by simp
      next
        case dpu: (Inr dpu)
        show ?thesis
        proof (cases "dpu = \<infinity>")
          case fin: False
          then show ?thesis using Cons.prems Inr False dpu Cons.IH
            by (simp del: not_infinity_eq)
        next
          case True
          from Cons.prems Inr False dpu True obtain dv d' where
            s: "py_set d pu (dv + 1) = Inr d'"
            and r: "bfs_scan pu_arr v us d' (dq @ [pu]) found = Inr (d1, dq1, found1)"
            by (auto split: sum.splits)
          have "only_inf d d'" using only_inf_set dpu True s by blast
          then show ?thesis using Cons.IH[OF r] only_inf_trans by blast
        qed
      qed
    qed
  qed
qed

lemma bfs_layers_only_inf:
  assumes "bfs_layers fa pu_arr d dq found = Some (Inr (d1, found1))"
  shows "only_inf d d1"
proof -
  have "\<forall>d1 found1. Inr (d1, found1) = Inr (d1, found1) \<longrightarrow> True" by simp
  have "(case Inr (d1, found1) :: py_error + enat list \<times> bool of Inl e \<Rightarrow> True
         | Inr (d1, f1) \<Rightarrow> only_inf d d1)"
  proof (rule bfs_layers.raw_induct
      [where P="\<lambda>fa pu_arr d dq found r. case r of Inl e \<Rightarrow> True | Inr (d1, f1) \<Rightarrow> only_inf d d1",
       OF _ assms], goal_cases)
    case (1 f fa pu_arr d dq found r)
    show ?case
    proof (cases "dq = []")
      case True
      then show ?thesis using 1(2) by (auto simp: only_inf_refl)
    next
      case False
      show ?thesis
      proof (cases r)
        case (Inl e)
        then show ?thesis by simp
      next
        case (Inr dr)
        obtain d2 f2 where dr: "dr = (d2, f2)" by (cases dr)
        from 1(2) False Inr obtain nbrs d' dq' found' where
          sc: "bfs_scan pu_arr (hd dq) nbrs d (tl dq) found = Inr (d', dq', found')"
          and rec: "f fa pu_arr d' dq' found' = Some r"
          by (auto split: sum.splits)
        have "only_inf d d'" using sc by (rule bfs_scan_only_inf)
        moreover have "only_inf d' d2" using 1(1)[OF rec] Inr dr by simp
        ultimately show ?thesis using Inr dr only_inf_trans by auto
      qed
    qed
  qed
  then show ?thesis by simp
qed

lemma bfs_post:
  assumes run: "bfs fa left s = Some (Inr (found, s1))" and l: "lens n s"
    and left: "\<forall>v\<in>set left. vertex n v"
  shows "lens n s1 \<and> same_pairs s s1 \<and>
         (\<forall>w\<in>set left. PV s w = - 1 \<longrightarrow> DV s1 w = 0)"
proof -
  from run obtain d dq d1 where
    init: "bfs_init (pair_v s) left (dists s) [] = Inr (d, dq)"
    and lay: "bfs_layers fa (pair_u s) d dq False = Some (Inr (d1, found))"
    and s1: "s1 = s\<lparr>dists := d1\<rparr>"
    by (auto simp: bfs_def split: sum.splits option.splits)
  have i: "length d = n"
    "\<And>w. vertex n w \<Longrightarrow> d ! nat w =
       (if w \<in> set left then (if pair_v s ! nat w = - 1 then 0 else \<infinity>) else dists s ! nat w)"
    using bfs_init_post[OF init _ _ left] l by (simp_all add: lens_def)
  have oi: "only_inf d d1" using lay by (rule bfs_layers_only_inf)
  have z: "DV s1 w = 0" if "w \<in> set left" "PV s w = - 1" for w
  proof -
    have w: "vertex n w" using left that by simp
    then have "d ! nat w = 0" using i(2)[OF w] that by (simp add: PV_def)
    moreover have "nat w < length d" using w i(1) by (simp add: vertex_def nat_less_iff)
    ultimately have "d1 ! nat w = 0" using oi unfolding only_inf_def by (metis infinity_ne_i0)
    then show ?thesis by (simp add: s1 DV_def)
  qed
  show ?thesis
    using l oi i(1) z by (simp add: s1 lens_def same_pairs_def only_inf_def)
qed



lemma dfs_top:
  assumes inv: "phase_inv n fa s" and u: "vertex n u" "PV s u = - 1" "DV s u = 0"
    and run: "dfs limit fa u s = Some (Inr (ok, s1))"
  shows "phase_inv n fa s1 \<and> dchange n u s s1 \<and> keeps n s s1 \<and>
         (\<forall>w. vertex n w \<and> w \<noteq> u \<and> DV s w \<le> 0 \<longrightarrow> PV s1 w = PV s w) \<and>
         (ok \<longrightarrow> PV s1 u \<noteq> - 1)"
proof -
  have ok: "adj_ok n fa" and l: "lens n s" and i1: "I1 n fa s" and i2: "I2x n s (- 1)"
    using inv by (simp_all add: phase_inv_def)
  have "py_get fa u = Inr (fa ! nat u)" using ok u(1) by (simp add: py_get_vertex adj_ok_def)
  then have run': "dfs_loop (limit - 1) fa u (fa ! nat u) s = Some (Inr (ok, s1))"
    using run by (simp add: dfs_def split: if_splits)
  have "dfs_pre n fa u (fa ! nat u) s"
    using ok l i1 i2 u by (simp add: dfs_pre_def)
  from dfs_loop_post[OF run' this]
  have l1: "lens n s1" and dc: "dchange n u s s1"
    and rest: "if ok then post_ok n fa u s s1 else same_pairs s s1"
    by (simp_all add: dfs_post_def)
  show ?thesis
  proof (cases ok)
    case True
    then have po: "post_ok n fa u s s1" using rest by simp
    then have "I1 n fa s1" "I2x n s1 (- 1)" "F1 n u s s1" "keeps n s s1" "PV s1 u \<noteq> - 1"
      using u(2) by (simp_all add: post_ok_def)
    then show ?thesis
      using ok l1 dc u(3) by (simp add: phase_inv_def F1_def)
  next
    case False
    then have sp: "same_pairs s s1" using rest by simp
    then show ?thesis
      using False ok l1 dc i1 i2 same_pairs_I1[OF sp] same_pairs_I2x[OF sp] same_pairs_PV[OF sp]
      by (simp add: phase_inv_def keeps_def)
  qed
qed

lemma dfs_all_inv:
  assumes "dfs_all limit fa us s = Some (Inr s')" "phase_inv n fa s"
    "\<forall>u\<in>set us. vertex n u" "distinct us" "\<forall>u\<in>set us. PV s u = - 1 \<longrightarrow> DV s u = 0"
  shows "phase_inv n fa s' \<and> keeps n s s'"
  using assms
proof (induction us arbitrary: s)
  case Nil
  then show ?case by (simp add: keeps_def)
next
  case (Cons u us)
  have u: "vertex n u" using Cons.prems(3) by simp
  have l: "lens n s" using Cons.prems(2) by (simp add: phase_inv_def)
  have g: "py_get (pair_v s) u = Inr (PV s u)"
    using l u by (simp add: py_get_vertex lens_def PV_def)
  show ?case
  proof (cases "PV s u = - 1")
    case False
    then have "dfs_all limit fa us s = Some (Inr s')" using Cons.prems(1) g by simp
    then show ?thesis using Cons.IH[of s] Cons.prems by simp
  next
    case True
    then have d0: "DV s u = 0" using Cons.prems(5) by simp
    from Cons.prems(1) g True obtain ok s1 where
      run: "dfs limit fa u s = Some (Inr (ok, s1))" and rest: "dfs_all limit fa us s1 = Some (Inr s')"
      by (auto split: option.splits sum.splits)
    from dfs_top[OF Cons.prems(2) u True d0 run]
    have inv1: "phase_inv n fa s1" and dc: "dchange n u s s1" and k: "keeps n s s1"
      and f: "\<And>w. vertex n w \<Longrightarrow> w \<noteq> u \<Longrightarrow> DV s w \<le> 0 \<Longrightarrow> PV s1 w = PV s w"
      by simp_all
    have free1: "\<forall>w\<in>set us. PV s1 w = - 1 \<longrightarrow> DV s1 w = 0"
    proof (intro ballI impI)
      fix w assume w: "w \<in> set us" "PV s1 w = - 1"
      then have wv: "vertex n w" and wu: "w \<noteq> u" using Cons.prems(3,4) by auto
      have "PV s w = - 1"
      proof (rule ccontr)
        assume "PV s w \<noteq> - 1"
        then have "PV s1 w \<noteq> - 1" using k wv by (simp add: keeps_def)
        then show False using w(2) by simp
      qed
      then have z: "DV s w = 0" using Cons.prems(5) w(1) by simp
      show "DV s1 w = 0"
      proof (rule ccontr)
        assume "DV s1 w \<noteq> 0"
        then have "DV s1 w \<noteq> DV s w" using z by simp
        from dchangeD[OF dc wv this] show False using wu z d0 by simp
      qed
    qed
    have "phase_inv n fa s' \<and> keeps n s1 s'"
      using Cons.IH[OF rest inv1 _ _ free1] Cons.prems(3,4) by simp
    then show ?thesis using k by (auto simp: keeps_def)
  qed
qed

lemma phases_inv:
  assumes run: "phases limit fa left s = Some (Inr s')" and inv: "phase_inv n fa s"
    and left: "\<forall>v\<in>set left. vertex n v" "distinct left"
  shows "phase_inv n fa s' \<and> keeps n s s'"
proof -
  have "phase_inv n fa s \<and> (\<forall>v\<in>set left. vertex n v) \<and> distinct left \<longrightarrow>
        (\<forall>t. (Inr s' :: py_error + hk_state) = Inr t \<longrightarrow> phase_inv n fa t \<and> keeps n s t)"
  proof (rule phases.raw_induct
      [where P="\<lambda>limit fa left s r. phase_inv n fa s \<and> (\<forall>v\<in>set left. vertex n v) \<and> distinct left \<longrightarrow>
                  (\<forall>t. r = Inr t \<longrightarrow> phase_inv n fa t \<and> keeps n s t)",
       OF _ run], goal_cases)
    case (1 f limit fa left s r)
    show ?case
    proof (intro impI allI)
      fix t
      assume pre: "phase_inv n fa s \<and> (\<forall>v\<in>set left. vertex n v) \<and> distinct left"
        and r: "r = Inr t"
      then have inv: "phase_inv n fa s" and lv: "\<forall>v\<in>set left. vertex n v"
        and dl: "distinct left" by simp_all
      have l: "lens n s" using inv by (simp add: phase_inv_def)
      from 1(2) r obtain found s1 where b: "bfs fa left s = Some (Inr (found, s1))"
        and cont: "(if found
                    then (case dfs_all limit fa left s1 of None \<Rightarrow> None
                          | Some (Inl e) \<Rightarrow> Some (Inl e)
                          | Some (Inr s2) \<Rightarrow> f limit fa left s2)
                    else Some (Inr s1)) = Some (Inr t)"
        by (auto split: option.splits sum.splits)
      from bfs_post[OF b l lv]
      have l1: "lens n s1" and sp: "same_pairs s s1"
        and z: "\<forall>w\<in>set left. PV s w = - 1 \<longrightarrow> DV s1 w = 0" by simp_all
      have inv1: "phase_inv n fa s1"
        using inv l1 same_pairs_I1[OF sp] same_pairs_I2x[OF sp] by (simp add: phase_inv_def)
      have k1: "keeps n s s1" using same_pairs_PV[OF sp] by (simp add: keeps_def)
      show "phase_inv n fa t \<and> keeps n s t"
      proof (cases found)
        case False
        then show ?thesis using cont inv1 k1 by simp
      next
        case True
        from cont True obtain s2 where da: "dfs_all limit fa left s1 = Some (Inr s2)"
          and rec: "f limit fa left s2 = Some (Inr t)"
          by (auto split: option.splits sum.splits)
        have z1: "\<forall>w\<in>set left. PV s1 w = - 1 \<longrightarrow> DV s1 w = 0"
          using z same_pairs_PV[OF sp] by simp
        from dfs_all_inv[OF da inv1 lv dl z1]
        have inv2: "phase_inv n fa s2" and k2: "keeps n s1 s2" by simp_all
        have "phase_inv n fa t \<and> keeps n s2 t" using 1(1)[OF rec] inv2 lv dl by simp
        then show ?thesis using k1 k2 by (auto simp: keeps_def)
      qed
    qed
  qed
  then show ?thesis using inv left by simp
qed



lemma collect_matching_eq:
  assumes "length pv = n" "\<forall>u\<in>set us. vertex n u"
  shows "collect_matching pv us =
         Inr (map (\<lambda>u. (u, pv ! nat u)) (filter (\<lambda>u. pv ! nat u \<noteq> - 1) us))"
  using assms
  by (induction us) (simp_all add: py_get_vertex)

lemma append_at_vertex:
  "vertex (length fa) u \<Longrightarrow> append_at fa u x = Inr (fa[nat u := fa ! nat u @ [x]])"
  by (simp add: append_at_def py_index_def vertex_def)


lemma rows_append:
  assumes "k < length fa" "\<forall>row\<in>set fa. \<forall>u\<in>set row. P u" "P x"
  shows "\<forall>row\<in>set (fa[k := fa ! k @ [x]]). \<forall>u\<in>set row. P u"
proof (intro ballI)
  fix row u assume r: "row \<in> set (fa[k := fa ! k @ [x]])" and u: "u \<in> set row"
  have "row = fa ! k @ [x] \<or> row \<in> set fa"
    using r set_update_subset_insert[of fa k "fa ! k @ [x]"] by auto
  moreover have "fa ! k \<in> set fa" using assms(1) by simp
  ultimately show "P u" using u assms(2,3) by auto
qed

lemma adj_ok_append:
  assumes "adj_ok n fa" "vertex n u" "vertex n x"
  shows "adj_ok n (fa[nat u := fa ! nat u @ [x]])"
proof -
  have k: "nat u < length fa" using assms by (simp add: adj_ok_def vertex_def nat_less_iff)
  have "\<forall>row\<in>set fa. \<forall>u\<in>set row. vertex n u" using assms(1) by (simp add: adj_ok_def)
  from rows_append[OF k this assms(3)] show ?thesis
    using assms(1) by (simp add: adj_ok_def)
qed

lemma right_only_append:
  assumes "right_only fa left" "x \<notin> set left" "nat u < length fa"
  shows "right_only (fa[nat u := fa ! nat u @ [x]]) left"
proof -
  have "\<forall>row\<in>set fa. \<forall>u\<in>set row. u \<notin> set left" using assms(1) by (simp add: right_only_def)
  from rows_append[OF assms(3) this assms(2)] show ?thesis
    by (simp add: right_only_def)
qed

lemma build_forward_post:
  assumes "build_forward fa0 left edges = Inr fa" "adj_ok n fa0" "right_only fa0 left"
    "\<forall>(u, v)\<in>set edges. vertex n u \<and> vertex n v \<and> \<not> (u \<in> set left \<and> v \<in> set left)"
  shows "adj_ok n fa \<and> right_only fa left"
  using assms
proof (induction edges arbitrary: fa0)
  case Nil
  then show ?case by simp
next
  case (Cons e es)
  obtain u v where e: "e = (u, v)" by (cases e)
  have uv: "vertex n u" "vertex n v" "\<not> (u \<in> set left \<and> v \<in> set left)"
    using Cons.prems(4) e by auto
  have len: "length fa0 = n" using Cons.prems(2) by (simp add: adj_ok_def)
  have rest: "\<forall>(u, v)\<in>set es. vertex n u \<and> vertex n v \<and> \<not> (u \<in> set left \<and> v \<in> set left)"
    using Cons.prems(4) by simp
  have lt: "nat u < length fa0" "nat v < length fa0"
    using uv len by (simp_all add: vertex_def nat_less_iff)
  show ?case
  proof (cases "u \<in> set left")
    case True
    then have "v \<notin> set left" using uv by simp
    then have a: "adj_ok n (fa0[nat u := fa0 ! nat u @ [v]])"
      "right_only (fa0[nat u := fa0 ! nat u @ [v]]) left"
      using adj_ok_append[OF Cons.prems(2) uv(1,2)] right_only_append[OF Cons.prems(3) _ lt(1)]
      by simp_all
    have "build_forward (fa0[nat u := fa0 ! nat u @ [v]]) left es = Inr fa"
      using Cons.prems(1) e True uv len by (simp add: append_at_vertex)
    then show ?thesis using Cons.IH a rest by blast
  next
    case False
    show ?thesis
    proof (cases "v \<in> set left")
      case True
      have a: "adj_ok n (fa0[nat v := fa0 ! nat v @ [u]])"
        "right_only (fa0[nat v := fa0 ! nat v @ [u]]) left"
        using adj_ok_append[OF Cons.prems(2) uv(2,1)] right_only_append[OF Cons.prems(3) False lt(2)]
        by simp_all
      have "build_forward (fa0[nat v := fa0 ! nat v @ [u]]) left es = Inr fa"
        using Cons.prems(1) e True False uv len by (simp add: append_at_vertex)
      then show ?thesis using Cons.IH a rest by blast
    next
      case nv: False
      then have "build_forward fa0 left es = Inr fa"
        using Cons.prems(1) e False by simp
      then show ?thesis using Cons.IH Cons.prems(2,3) rest by blast
    qed
  qed
qed

lemma empty_adj_ok: "adj_ok n (map (\<lambda>_. []) (py_range 0 (int n))) \<and>
     right_only (map (\<lambda>_. []) (py_range 0 (int n))) left"
  by (auto simp: adj_ok_def right_only_def py_range_def)

lemma initial_inv:
  assumes "adj_ok n fa"
  shows "phase_inv n fa \<lparr>pair_v = py_replicate (int n) (- 1), pair_u = py_replicate (int n) (- 1),
                          dists = py_replicate (int n) \<infinity>\<rparr>"
  using assms
  by (auto simp: phase_inv_def lens_def I1_def I2x_def PV_def PU_def py_replicate_def vertex_def
                 nat_less_iff)

lemma matching_distinct:
  assumes inv: "phase_inv n fa s" and ro: "right_only fa left"
    and left: "\<forall>v\<in>set left. vertex n v" "distinct left"
    and m: "m = map (\<lambda>u. (u, pair_v s ! nat u)) (filter (\<lambda>u. pair_v s ! nat u \<noteq> - 1) left)"
  shows "distinct (map fst m @ map snd m)"
proof -
  define ms where "ms = filter (\<lambda>u. PV s u \<noteq> - 1) left"
  have i1: "I1 n fa s" and ok: "adj_ok n fa" using inv by (simp_all add: phase_inv_def)
  have m': "m = map (\<lambda>u. (u, PV s u)) ms" unfolding m ms_def PV_def by (rule refl)
  have fst_m: "map fst m = ms" by (simp add: m' comp_def)
  have snd_m: "map snd m = map (PV s) ms" by (simp add: m' comp_def)
  have d1: "distinct ms" using left(2) by (simp add: ms_def)
  have mem: "vertex n a \<and> PV s a \<noteq> - 1 \<and> a \<in> set left" if "a \<in> set ms" for a
    using that left(1) by (simp add: ms_def)
  have inj: "inj_on (PV s) (set ms)"
  proof (rule inj_onI)
    fix a b assume a: "a \<in> set ms" and b: "b \<in> set ms" and e: "PV s a = PV s b"
    have va: "vertex n a" "PV s a \<noteq> - 1" using mem[OF a] by simp_all
    have vb: "vertex n b" "PV s b \<noteq> - 1" using mem[OF b] by simp_all
    have "PU s (PV s a) = a" using I1D[OF i1 va] by simp
    moreover have "PU s (PV s b) = b" using I1D[OF i1 vb] by simp
    ultimately show "a = b" using e by metis
  qed
  have d2: "distinct (map (PV s) ms)" using d1 inj by (simp add: distinct_map)
  have disj: "set ms \<inter> PV s ` set ms = {}"
  proof (rule ccontr)
    assume "set ms \<inter> PV s ` set ms \<noteq> {}"
    then obtain a where a: "a \<in> set ms" and pa: "PV s a \<in> set ms" by auto
    have va: "vertex n a" "PV s a \<noteq> - 1" using mem[OF a] by simp_all
    have 1: "PV s a \<in> set (fa ! nat a)" using I1D[OF i1 va] by simp
    have "nat a < length fa" using ok va(1) by (simp add: adj_ok_def vertex_def nat_less_iff)
    then have 2: "fa ! nat a \<in> set fa" by simp
    have "\<forall>row\<in>set fa. \<forall>x\<in>set row. x \<notin> set left" using ro by (simp add: right_only_def)
    then have "PV s a \<notin> set left" using 1 2 by blast
    moreover have "PV s a \<in> set left" using mem[OF pa] by simp
    ultimately show False by simp
  qed
  show ?thesis unfolding fst_m snd_m using d1 d2 disj by simp
qed



text \<open>The matching of \<open>hopcroft_karp\<close> on a left part that meets every edge in at most
  one endpoint.\<close>

lemma hopcroft_karp_distinct:
  assumes run: "hopcroft_karp limit (int n) edges left = Some (Inr m)"
    and left: "\<forall>v\<in>set left. vertex n v" "distinct left"
    and edges: "\<forall>(u, v)\<in>set edges. vertex n u \<and> vertex n v \<and> \<not> (u \<in> set left \<and> v \<in> set left)"
  shows "distinct (map fst m @ map snd m)"
proof -
  from run obtain fa s where
    bf: "build_forward (map (\<lambda>_. []) (py_range 0 (int n))) left edges = Inr fa"
    and ph: "phases limit fa left \<lparr>pair_v = py_replicate (int n) (- 1),
                              pair_u = py_replicate (int n) (- 1),
                              dists = py_replicate (int n) \<infinity>\<rparr> = Some (Inr s)"
    and cm: "collect_matching (pair_v s) left = Inr m"
    by (auto simp: hopcroft_karp_def split: sum.splits option.splits)
  have fa: "adj_ok n fa" "right_only fa left"
    using build_forward_post[OF bf _ _ edges] empty_adj_ok by simp_all
  have inv: "phase_inv n fa s"
    using phases_inv[OF ph initial_inv[OF fa(1)] left] by simp
  then have "length (pair_v s) = n" by (simp add: phase_inv_def lens_def)
  from collect_matching_eq[OF this left(1)] cm
  have "m = map (\<lambda>u. (u, pair_v s ! nat u)) (filter (\<lambda>u. pair_v s ! nat u \<noteq> - 1) left)"
    by simp
  from matching_distinct[OF inv fa(2) left this] show ?thesis .
qed







lemma ext_refl: "ext n c c"
  by (simp add: ext_def)

lemma ext_trans: "ext n c c1 \<Longrightarrow> ext n c1 c2 \<Longrightarrow> ext n c c2"
  unfolding ext_def by metis

lemma extD: "ext n c c1 \<Longrightarrow> vertex n v \<Longrightarrow> CV c v \<noteq> - 1 \<Longrightarrow> CV c1 v = CV c v"
  by (simp add: ext_def)

lemma CV_update:
  "length c = n \<Longrightarrow> vertex n u \<Longrightarrow> vertex n w \<Longrightarrow>
   CV (c[nat u := x]) w = (if w = u then x else CV c w)"
  by (auto simp: CV_def vertex_def nth_list_update)

lemma colour_scan_post:
  assumes "colour_scan v us colors q = Inr (ok, colors', q')"
    "cols_ok n colors" "vertex n v" "CV colors v \<noteq> - 1" "\<forall>u\<in>set us. vertex n u"
  shows "cols_ok n colors' \<and> ext n colors colors' \<and>
     (ok \<longrightarrow> (\<forall>u\<in>set us. CV colors' u \<noteq> - 1 \<and> CV colors' u \<noteq> CV colors' v) \<and>
            set q \<subseteq> set q' \<and>
            (\<forall>x\<in>set q'. x \<in> set q \<or> (vertex n x \<and> CV colors' x \<noteq> - 1)) \<and>
            (\<forall>x. vertex n x \<and> CV colors' x \<noteq> - 1 \<longrightarrow> CV colors x \<noteq> - 1 \<or> x \<in> set q'))"
  using assms
proof (induction us arbitrary: colors q)
  case Nil
  then show ?case by (auto simp: ext_refl)
next
  case (Cons u us)
  have u: "vertex n u" and us: "\<forall>u\<in>set us. vertex n u" using Cons.prems(5) by simp_all
  have len: "length colors = n" using Cons.prems(2) by (simp add: cols_ok_def)
  have g: "py_get colors u = Inr (CV colors u)" "py_get colors v = Inr (CV colors v)"
    using len u Cons.prems(3) by (simp_all add: py_get_vertex CV_def)
  have cv01: "CV colors v = 0 \<or> CV colors v = 1"
    using Cons.prems(2,3,4) by (auto simp: cols_ok_def)
  show ?case
  proof (cases "CV colors u = - 1")
    case True
    define c1 where "c1 = colors[nat u := 1 - CV colors v]"
    have uv: "u \<noteq> v" using True Cons.prems(4) by auto
    have run: "colour_scan v us c1 (q @ [u]) = Inr (ok, colors', q')"
      using Cons.prems(1) g True len u by (simp add: py_set_vertex c1_def)
    have c1: "\<And>w. vertex n w \<Longrightarrow> CV c1 w = (if w = u then 1 - CV colors v else CV colors w)"
      using len u by (simp add: c1_def CV_update)
    have ok1: "cols_ok n c1"
      unfolding cols_ok_def
    proof (intro conjI allI impI)
      show "length c1 = n" using len by (simp add: c1_def)
    next
      fix w assume w: "vertex n w"
      have "CV colors w = - 1 \<or> CV colors w = 0 \<or> CV colors w = 1"
        using Cons.prems(2) w by (simp add: cols_ok_def)
      then show "CV c1 w = - 1 \<or> CV c1 w = 0 \<or> CV c1 w = 1"
        using c1[OF w] cv01 by auto
    qed
    have v1: "CV c1 v = CV colors v" using c1[OF Cons.prems(3)] uv by simp
    have e1: "ext n colors c1" using True by (auto simp: ext_def c1)
    have u1: "CV c1 u \<noteq> - 1" using c1[OF u] cv01 by auto
    from Cons.IH[OF run ok1 Cons.prems(3) _ us] v1 Cons.prems(4)
    have IH: "cols_ok n colors'" "ext n c1 colors'"
      "ok \<Longrightarrow> (\<forall>u\<in>set us. CV colors' u \<noteq> - 1 \<and> CV colors' u \<noteq> CV colors' v)"
      "ok \<Longrightarrow> set (q @ [u]) \<subseteq> set q'"
      "ok \<Longrightarrow> (\<forall>x\<in>set q'. x \<in> set (q @ [u]) \<or> (vertex n x \<and> CV colors' x \<noteq> - 1))"
      "ok \<Longrightarrow> (\<forall>x. vertex n x \<and> CV colors' x \<noteq> - 1 \<longrightarrow> CV c1 x \<noteq> - 1 \<or> x \<in> set q')"
      by simp_all
    have cu: "CV colors' u = 1 - CV colors v" using extD[OF IH(2) u u1] c1[OF u] by simp
    have cv: "CV colors' v = CV colors v"
      using extD[OF IH(2) Cons.prems(3)] v1 Cons.prems(4) by simp
    have A: "CV colors' u \<noteq> - 1 \<and> CV colors' u \<noteq> CV colors' v"
      using cu cv cv01 by presburger
    have B: "ok \<Longrightarrow> (\<forall>x\<in>set q'. x \<in> set q \<or> (vertex n x \<and> CV colors' x \<noteq> - 1))"
      using IH(5) u A by auto
    have C: "ok \<Longrightarrow> (\<forall>x. vertex n x \<and> CV colors' x \<noteq> - 1 \<longrightarrow> CV colors x \<noteq> - 1 \<or> x \<in> set q')"
    proof (intro allI impI)
      fix x assume ok: ok and x: "vertex n x \<and> CV colors' x \<noteq> - 1"
      then have "CV c1 x \<noteq> - 1 \<or> x \<in> set q'" using IH(6) by simp
      moreover have "u \<in> set q'" using IH(4)[OF ok] by simp
      ultimately show "CV colors x \<noteq> - 1 \<or> x \<in> set q'"
        using c1 x by (cases "x = u") auto
    qed
    show ?thesis
      using IH(1,3,4) ext_trans[OF e1 IH(2)] A B C by auto
  next
    case False
    show ?thesis
    proof (cases "CV colors u = CV colors v")
      case True
      then have "ok = False" "colors' = colors"
        using Cons.prems(1) g False by simp_all
      then show ?thesis using Cons.prems(2) by (simp add: ext_refl)
    next
      case ne: False
      have run: "colour_scan v us colors q = Inr (ok, colors', q')"
        using Cons.prems(1) g False ne by simp
      from Cons.IH[OF run Cons.prems(2,3,4) us]
      have IH: "cols_ok n colors'" "ext n colors colors'"
        "ok \<Longrightarrow> (\<forall>u\<in>set us. CV colors' u \<noteq> - 1 \<and> CV colors' u \<noteq> CV colors' v)"
        "ok \<Longrightarrow> set q \<subseteq> set q'"
        "ok \<Longrightarrow> (\<forall>x\<in>set q'. x \<in> set q \<or> (vertex n x \<and> CV colors' x \<noteq> - 1))"
        "ok \<Longrightarrow> (\<forall>x. vertex n x \<and> CV colors' x \<noteq> - 1 \<longrightarrow> CV colors x \<noteq> - 1 \<or> x \<in> set q')"
        by simp_all
      have "CV colors' u = CV colors u" "CV colors' v = CV colors v"
        using extD[OF IH(2) u False] extD[OF IH(2) Cons.prems(3,4)] by simp_all
      then have A: "CV colors' u \<noteq> - 1 \<and> CV colors' u \<noteq> CV colors' v"
        using False ne by simp
      show ?thesis using IH A by auto
    qed
  qed
qed


lemma done_ext:
  assumes "done_v adj c w" "ext n c c1" "adj_ok n adj" "vertex n w" "CV c w \<noteq> - 1"
  shows "done_v adj c1 w"
  unfolding done_v_def
proof
  fix u assume u: "u \<in> set (adj ! nat w)"
  then have uv: "vertex n u" using adj_ok_vertex[OF assms(3,4)] by simp
  have d: "CV c u \<noteq> - 1" "CV c u \<noteq> CV c w" using assms(1) u by (simp_all add: done_v_def)
  have "CV c1 u = CV c u" "CV c1 w = CV c w"
    using extD[OF assms(2) uv d(1)] extD[OF assms(2,4,5)] by simp_all
  then show "CV c1 u \<noteq> - 1 \<and> CV c1 u \<noteq> CV c1 w" using d by simp
qed

lemma colour_bfs_post:
  assumes run: "colour_bfs adj colors q = Some r" and ok: "adj_ok n adj"
    and inv: "cinv n adj colors q"
  shows "\<forall>b colors'. r = Inr (b, colors') \<longrightarrow>
           cols_ok n colors' \<and> ext n colors colors' \<and> (b \<longrightarrow> cinv n adj colors' [])"
proof -
  have "adj_ok n adj \<and> cinv n adj colors q \<longrightarrow>
        (\<forall>b colors'. r = Inr (b, colors') \<longrightarrow>
           cols_ok n colors' \<and> ext n colors colors' \<and> (b \<longrightarrow> cinv n adj colors' []))"
  proof (rule colour_bfs.raw_induct
      [where P="\<lambda>adj colors q r. adj_ok n adj \<and> cinv n adj colors q \<longrightarrow>
        (\<forall>b colors'. r = Inr (b, colors') \<longrightarrow>
           cols_ok n colors' \<and> ext n colors colors' \<and> (b \<longrightarrow> cinv n adj colors' []))",
       OF _ run], goal_cases)
    case (1 f adj colors q r)
    show ?case
    proof (intro impI allI)
      fix b colors'
      assume pre: "adj_ok n adj \<and> cinv n adj colors q" and r: "r = Inr (b, colors')"
      then have ok: "adj_ok n adj" and inv: "cinv n adj colors q" by simp_all
      have co: "cols_ok n colors" using inv by (simp add: cinv_def)
      show "cols_ok n colors' \<and> ext n colors colors' \<and> (b \<longrightarrow> cinv n adj colors' [])"
      proof (cases "q = []")
        case True
        then have "b = True" "colors' = colors" using 1(2) r by simp_all
        then show ?thesis using inv True co by (simp add: ext_refl)
      next
        case False
        define v where "v = hd q"
        have vq: "v \<in> set q" using False by (simp add: v_def)
        then have v: "vertex n v" "CV colors v \<noteq> - 1" using inv by (simp_all add: cinv_def)
        have g: "py_get adj v = Inr (adj ! nat v)"
          using ok v(1) by (simp add: py_get_vertex adj_ok_def)
        have nb: "\<forall>u\<in>set (adj ! nat v). vertex n u" using adj_ok_vertex[OF ok v(1)] by simp
        from 1(2) r False g obtain ok1 c1 q1 where
          sc: "colour_scan v (adj ! nat v) colors (tl q) = Inr (ok1, c1, q1)"
          and cont: "(if ok1 then f adj c1 q1 else Some (Inr (False, c1))) = Some (Inr (b, colors'))"
          by (auto simp: v_def split: sum.splits)
        from colour_scan_post[OF sc co v nb]
        have P: "cols_ok n c1" "ext n colors c1"
          "ok1 \<Longrightarrow> (\<forall>u\<in>set (adj ! nat v). CV c1 u \<noteq> - 1 \<and> CV c1 u \<noteq> CV c1 v)"
          "ok1 \<Longrightarrow> set (tl q) \<subseteq> set q1"
          "ok1 \<Longrightarrow> (\<forall>x\<in>set q1. x \<in> set (tl q) \<or> (vertex n x \<and> CV c1 x \<noteq> - 1))"
          "ok1 \<Longrightarrow> (\<forall>x. vertex n x \<and> CV c1 x \<noteq> - 1 \<longrightarrow> CV colors x \<noteq> - 1 \<or> x \<in> set q1)"
          by simp_all
        show ?thesis
        proof (cases ok1)
          case False
          then show ?thesis using cont P(1,2) by simp
        next
          case True
          have tlq: "set (tl q) \<subseteq> set q" using False by (simp add: list.set_sel(2) subsetI)
          have qel: "\<forall>x\<in>set q1. vertex n x \<and> CV c1 x \<noteq> - 1"
          proof
            fix x assume x: "x \<in> set q1"
            from P(5)[OF True] x have "x \<in> set (tl q) \<or> (vertex n x \<and> CV c1 x \<noteq> - 1)" by simp
            then show "vertex n x \<and> CV c1 x \<noteq> - 1"
            proof
              assume "x \<in> set (tl q)"
              then have "x \<in> set q" using tlq by auto
              then have xv: "vertex n x" "CV colors x \<noteq> - 1" using inv by (simp_all add: cinv_def)
              then show ?thesis using extD[OF P(2) xv] by simp
            qed simp
          qed
          have dn: "\<forall>w. vertex n w \<and> CV c1 w \<noteq> - 1 \<and> w \<notin> set q1 \<longrightarrow> done_v adj c1 w"
          proof (intro allI impI)
            fix w assume "vertex n w \<and> CV c1 w \<noteq> - 1 \<and> w \<notin> set q1"
            then have w: "vertex n w" "CV c1 w \<noteq> - 1" "w \<notin> set q1" by simp_all
            have cw: "CV colors w \<noteq> - 1" using P(6)[OF True] w by blast
            show "done_v adj c1 w"
            proof (cases "w = v")
              case True
              then show ?thesis using P(3)[OF \<open>ok1\<close>] by (simp add: done_v_def)
            next
              case wv: False
              have "w \<notin> set (tl q)" using P(4)[OF True] w(3) by auto
              then have "w \<notin> set q" using wv False by (cases q) (auto simp: v_def)
              then have "done_v adj colors w" using inv w(1) cw by (simp add: cinv_def)
              then show ?thesis using done_ext[OF _ P(2) ok w(1) cw] by simp
            qed
          qed
          have inv1: "cinv n adj c1 q1" using P(1) qel dn by (simp add: cinv_def)
          have rec: "f adj c1 q1 = Some (Inr (b, colors'))" using cont True by simp
          from 1(1)[OF rec] ok inv1
          have "cols_ok n colors' \<and> ext n c1 colors' \<and> (b \<longrightarrow> cinv n adj colors' [])" by simp
          then show ?thesis using ext_trans[OF P(2)] by blast
        qed
      qed
    qed
  qed
  then show ?thesis using ok inv by simp
qed

lemma colour_components_post:
  assumes "colour_components adj ss colors = Some (Inr (True, colors'))"
    "adj_ok n adj" "cinv n adj colors []" "\<forall>s\<in>set ss. vertex n s"
  shows "cinv n adj colors' [] \<and> ext n colors colors' \<and> (\<forall>s\<in>set ss. CV colors' s \<noteq> - 1)"
  using assms
proof (induction ss arbitrary: colors)
  case Nil
  then show ?case by (simp add: ext_refl)
next
  case (Cons a ss)
  have a: "vertex n a" and ss: "\<forall>s\<in>set ss. vertex n s" using Cons.prems(4) by simp_all
  have co: "cols_ok n colors" using Cons.prems(3) by (simp add: cinv_def)
  then have len: "length colors = n" by (simp add: cols_ok_def)
  show ?case
  proof (cases "CV colors a \<noteq> - 1")
    case True
    then have "colour_components adj ss colors = Some (Inr (True, colors'))"
      using Cons.prems(1) by (simp add: CV_def)
    from Cons.IH[OF this Cons.prems(2,3) ss]
    have IH: "cinv n adj colors' []" "ext n colors colors'" "\<forall>s\<in>set ss. CV colors' s \<noteq> - 1"
      by simp_all
    have "CV colors' a \<noteq> - 1" using extD[OF IH(2) a True] True by simp
    then show ?thesis using IH by simp
  next
    case False
    then have free: "CV colors a = - 1" by simp
    define c0 where "c0 = colors[nat a := 0]"
    have c0: "\<And>w. vertex n w \<Longrightarrow> CV c0 w = (if w = a then 0 else CV colors w)"
      using len a by (simp add: c0_def CV_update)
    have e0: "ext n colors c0" using free by (auto simp: ext_def c0)
    have ok0: "cols_ok n c0"
      unfolding cols_ok_def
    proof (intro conjI allI impI)
      show "length c0 = n" using len by (simp add: c0_def)
    next
      fix w assume w: "vertex n w"
      have "CV colors w = - 1 \<or> CV colors w = 0 \<or> CV colors w = 1"
        using co w by (simp add: cols_ok_def)
      then show "CV c0 w = - 1 \<or> CV c0 w = 0 \<or> CV c0 w = 1" using c0[OF w] by auto
    qed
    have inv0: "cinv n adj c0 [a]"
      unfolding cinv_def
    proof (intro conjI ballI allI impI)
      show "cols_ok n c0" by (rule ok0)
    next
      fix x assume "x \<in> set [a]"
      then show "vertex n x" "CV c0 x \<noteq> - 1" using a c0[OF a] by simp_all
    next
      fix w assume "vertex n w \<and> CV c0 w \<noteq> - 1 \<and> w \<notin> set [a]"
      then have w: "vertex n w" "CV c0 w \<noteq> - 1" "w \<noteq> a" by simp_all
      then have cw: "CV colors w \<noteq> - 1" using c0[OF w(1)] by simp
      then have "done_v adj colors w" using Cons.prems(3) w(1) by (simp add: cinv_def)
      then show "done_v adj c0 w" using done_ext[OF _ e0 Cons.prems(2) w(1) cw] by simp
    qed
    from Cons.prems(1) free obtain c1 where
      b: "colour_bfs adj c0 [a] = Some (Inr (True, c1))"
      and rest: "colour_components adj ss c1 = Some (Inr (True, colors'))"
      by (auto simp: CV_def c0_def split: option.splits sum.splits if_splits)
    from colour_bfs_post[OF b Cons.prems(2) inv0, rule_format, of True c1]
    have B: "cols_ok n c1" "ext n c0 c1" "cinv n adj c1 []" by simp_all
    from Cons.IH[OF rest Cons.prems(2) B(3) ss]
    have IH: "cinv n adj colors' []" "ext n c1 colors'" "\<forall>s\<in>set ss. CV colors' s \<noteq> - 1"
      by simp_all
    have "CV c0 a \<noteq> - 1" using c0[OF a] by simp
    then have "CV c1 a \<noteq> - 1" using extD[OF B(2) a] by simp
    then have "CV colors' a \<noteq> - 1" using extD[OF IH(2) a] by simp
    then show ?thesis using IH ext_trans[OF e0 ext_trans[OF B(2) IH(2)]] by simp
  qed
qed

lemma build_adj_post:
  assumes "build_adj adj0 edges = Inr adj" "adj_ok n adj0"
    "\<forall>(u, v)\<in>set edges. vertex n u \<and> vertex n v"
  shows "adj_ok n adj \<and> (\<forall>(u, v)\<in>set edges. v \<in> set (adj ! nat u)) \<and>
         (\<forall>w. vertex n w \<longrightarrow> set (adj0 ! nat w) \<subseteq> set (adj ! nat w))"
  using assms
proof (induction edges arbitrary: adj0)
  case Nil
  then show ?case by simp
next
  case (Cons e es)
  obtain u v where e: "e = (u, v)" by (cases e)
  have uv: "vertex n u" "vertex n v" using Cons.prems(3) e by auto
  have rest: "\<forall>(u, v)\<in>set es. vertex n u \<and> vertex n v" using Cons.prems(3) by simp
  have len: "length adj0 = n" using Cons.prems(2) by (simp add: adj_ok_def)
  define a1 where "a1 = adj0[nat u := adj0 ! nat u @ [v]]"
  define a2 where "a2 = a1[nat v := a1 ! nat v @ [u]]"
  have ok1: "adj_ok n a1" unfolding a1_def using adj_ok_append[OF Cons.prems(2) uv] .
  have ok2: "adj_ok n a2" unfolding a2_def using adj_ok_append[OF ok1 uv(2,1)] .
  have len1: "length a1 = n" using ok1 by (simp add: adj_ok_def)
  have run: "build_adj a2 es = Inr adj"
    using Cons.prems(1) e uv len len1 by (simp add: append_at_vertex a1_def a2_def)
  from Cons.IH[OF run ok2 rest]
  have IH: "adj_ok n adj" "\<forall>(u, v)\<in>set es. v \<in> set (adj ! nat u)"
    "\<And>w. vertex n w \<Longrightarrow> set (a2 ! nat w) \<subseteq> set (adj ! nat w)" by simp_all
  have lt: "nat u < n" "nat v < n" using uv by (simp_all add: vertex_def nat_less_iff)
  have m1: "set (adj0 ! k) \<subseteq> set (a1 ! k)" if "k < n" for k
    using that len by (cases "k = nat u") (auto simp: a1_def)
  have m2: "set (a1 ! k) \<subseteq> set (a2 ! k)" if "k < n" for k
    using that len1 by (cases "k = nat v") (auto simp: a2_def)
  have "v \<in> set (a1 ! nat u)" using lt len by (simp add: a1_def)
  then have "v \<in> set (a2 ! nat u)" using m2[OF lt(1)] by auto
  then have vin: "v \<in> set (adj ! nat u)" using IH(3)[OF uv(1)] by auto
  have mono: "\<And>w. vertex n w \<Longrightarrow> set (adj0 ! nat w) \<subseteq> set (adj ! nat w)"
  proof -
    fix w assume w: "vertex n w"
    then have "nat w < n" by (simp add: vertex_def nat_less_iff)
    then show "set (adj0 ! nat w) \<subseteq> set (adj ! nat w)"
      using m1 m2 IH(3)[OF w] by blast
  qed
  show ?case using IH(1,2) vin mono by (simp add: e)
qed

text \<open>When \<open>check_bipartite\<close> answers \<open>True\<close>, the two ends of every edge have different
  colours, each 0 or 1.\<close>

lemma check_bipartite_sound:
  assumes run: "check_bipartite (int n) edges = Some (Inr (True, colors))"
    and edges: "\<forall>(u, v)\<in>set edges. vertex n u \<and> vertex n v"
  shows "length colors = n \<and> (\<forall>(u, v)\<in>set edges. CV colors u \<noteq> CV colors v)"
proof -
  from run obtain adj where
    ba: "build_adj (map (\<lambda>_. []) (py_range 0 (int n))) edges = Inr adj"
    and cc: "colour_components adj (py_range 0 (int n)) (py_replicate (int n) (- 1)) =
             Some (Inr (True, colors))"
    by (auto simp: check_bipartite_def split: sum.splits)
  have ok0: "adj_ok n (map (\<lambda>_. []) (py_range 0 (int n)))" using empty_adj_ok by simp
  from build_adj_post[OF ba ok0 edges]
  have ok: "adj_ok n adj" and nb: "\<forall>(u, v)\<in>set edges. v \<in> set (adj ! nat u)" by simp_all
  have inv0: "cinv n adj (py_replicate (int n) (- 1)) []"
    by (auto simp: cinv_def cols_ok_def CV_def py_replicate_def vertex_def nat_less_iff)
  have vs: "\<forall>s\<in>set (py_range 0 (int n)). vertex n s"
    by (auto simp: py_range_def vertex_def)
  from colour_components_post[OF cc ok inv0 vs]
  have inv: "cinv n adj colors []" and col: "\<forall>s\<in>set (py_range 0 (int n)). CV colors s \<noteq> - 1"
    by simp_all
  have all: "\<And>w. vertex n w \<Longrightarrow> done_v adj colors w"
  proof -
    fix w assume w: "vertex n w"
    then have "w \<in> set (py_range 0 (int n))" by (auto simp: py_range_def vertex_def)
    then have "CV colors w \<noteq> - 1" using col by simp
    then show "done_v adj colors w" using inv w by (simp add: cinv_def)
  qed
  have "\<forall>(u, v)\<in>set edges. CV colors u \<noteq> CV colors v"
  proof (intro ballI, clarify)
    fix u v assume e: "(u, v) \<in> set edges" and eq: "CV colors u = CV colors v"
    then have "vertex n u" "v \<in> set (adj ! nat u)" using edges nb by auto
    then have "CV colors v \<noteq> CV colors u" using all[of u] by (simp add: done_v_def)
    then show False using eq by simp
  qed
  moreover have "length colors = n" using inv by (simp add: cinv_def cols_ok_def)
  ultimately show ?thesis by simp
qed


lemma zero_coloured_set:
  "set (zero_coloured colors) = {i. vertex (length colors) i \<and> CV colors i = 0}"
proof -
  let ?xs = "[0..int (length colors) - 1]"
  have len: "length ?xs = length colors" by simp
  have nth: "\<And>k. k < length colors \<Longrightarrow> ?xs ! k = int k" by (simp add: nth_upto)
  show ?thesis
  proof (intro set_eqI iffI)
    fix i assume "i \<in> set (zero_coloured colors)"
    then have "(i, 0) \<in> set (zip ?xs colors)"
      by (auto simp: zero_coloured_def)
    then obtain k where k: "k < length colors" "?xs ! k = i" "colors ! k = 0"
      using len by (auto simp: in_set_zip)
    then have "i = int k" using nth by simp
    then show "i \<in> {i. vertex (length colors) i \<and> CV colors i = 0}"
      using k by (simp add: vertex_def CV_def)
  next
    fix i assume "i \<in> {i. vertex (length colors) i \<and> CV colors i = 0}"
    then have i: "0 \<le> i" "i < int (length colors)" "colors ! nat i = 0"
      by (simp_all add: vertex_def CV_def)
    then have "nat i < length colors" by (simp add: nat_less_iff)
    moreover have "?xs ! nat i = i" using nth[of "nat i"] i by (simp add: nat_less_iff)
    ultimately have "(i, 0) \<in> set (zip ?xs colors)"
      using i(3) len by (force simp: in_set_zip)
    then show "i \<in> set (zero_coloured colors)"
      by (force simp: zero_coloured_def)
  qed
qed

lemma zero_coloured_distinct: "distinct (zero_coloured colors)"
proof -
  have "distinct (map fst (zip [0..int (length colors) - 1] colors))"
    by (simp add: map_fst_zip_take)
  then show ?thesis unfolding zero_coloured_def by (rule distinct_map_filter)
qed

lemma solve_matching_nat:
  assumes edges: "\<forall>(u, v)\<in>set edges. vertex n u \<and> vertex n v"
    and order: "\<forall>xs. distinct xs \<longrightarrow> distinct (set_order xs) \<and> set (set_order xs) = set xs"
    and run: "solve_matching set_order limit (int n) edges = Some (Inr (b, matching))"
  shows "distinct (map fst matching @ map snd matching)"
proof (cases b)
  case False
  then have "matching = []"
    using run by (auto simp: solve_matching_def split: option.splits sum.splits if_splits)
  then show ?thesis by simp
next
  case True
  from run True obtain colors where
    cb: "check_bipartite (int n) edges = Some (Inr (True, colors))"
    and hk: "hopcroft_karp limit (int n) edges (set_order (zero_coloured colors)) =
             Some (Inr matching)"
    by (auto simp: solve_matching_def split: option.splits sum.splits if_splits)
  define left where "left = set_order (zero_coloured colors)"
  from check_bipartite_sound[OF cb edges]
  have len: "length colors = n" and diff: "\<forall>(u, v)\<in>set edges. CV colors u \<noteq> CV colors v"
    by simp_all
  have l: "distinct left" "set left = {i. vertex n i \<and> CV colors i = 0}"
    using order zero_coloured_distinct[of colors] zero_coloured_set[of colors] len
    by (simp_all add: left_def)
  have lv: "\<forall>v\<in>set left. vertex n v" using l(2) by simp
  have e: "\<forall>(u, v)\<in>set edges. vertex n u \<and> vertex n v \<and> \<not> (u \<in> set left \<and> v \<in> set left)"
    using edges diff l(2) by fastforce
  show ?thesis
    using hopcroft_karp_distinct[OF _ lv l(1) e] hk by (simp add: left_def)
qed

lemma solve_matching_neg:
  assumes "n \<le> 0"
  shows "solve_matching set_order limit n edges = solve_matching set_order limit (int 0) edges"
proof -
  have r: "py_range 0 n = py_range 0 0" using assms by (simp add: py_range_def)
  have p: "\<And>x :: int. py_replicate n x = py_replicate 0 x"
    and q: "\<And>x :: enat. py_replicate n x = py_replicate 0 x"
    using assms by (simp_all add: py_replicate_def)
  have "check_bipartite n edges = check_bipartite 0 edges"
    by (simp only: check_bipartite_def r p)
  moreover have "\<And>l. hopcroft_karp limit n edges l = hopcroft_karp limit 0 edges l"
    by (simp only: hopcroft_karp_def r p q)
  ultimately show ?thesis by (simp only: solve_matching_def of_nat_0)
qed

subsection \<open>The matcher ends\<close>

text \<open>The colouring BFS, the layering BFS, the recursive \<open>dfs\<close> and the loop over the
  phases all end, and no subscript is out of range: every step of the colouring BFS that
  lengthens the queue colours a vertex; every step of the layering BFS that lengthens the
  queue gives a layer to a vertex that had none; a recursive call of \<open>dfs\<close> goes one layer
  down, so that \<open>dfs\<close> nests no deeper than there are vertices and raises
  \<open>RecursionError\<close> only under a smaller bound; and a phase whose BFS found a path and
  whose calls of \<open>dfs\<close> all returned matches a vertex that was free, because a \<open>dfs\<close> that
  fails has marked only vertices from which no layered path leads to a free right
  vertex.\<close>

lemma finite_vertices: "finite {v. vertex n v}"
proof -
  have "{v. vertex n v} = {0..<int n}" by (auto simp: vertex_def)
  then show ?thesis by simp
qed

lemma finite_unc: "finite (unc n colors)"
  using finite_vertices[of n] by (simp add: unc_def)

lemma colour_scan_total:
  assumes "cols_ok n colors" "vertex n v" "CV colors v \<noteq> - 1" "\<forall>u\<in>set us. vertex n u"
  shows "\<exists>ok colors' q'. colour_scan v us colors q = Inr (ok, colors', q') \<and>
           card (unc n colors') + length q' \<le> card (unc n colors) + length q"
  using assms
proof (induction us arbitrary: colors q)
  case Nil
  then show ?case by auto
next
  case (Cons u us)
  have u: "vertex n u" and us: "\<forall>u\<in>set us. vertex n u" using Cons.prems(4) by simp_all
  have len: "length colors = n" using Cons.prems(1) by (simp add: cols_ok_def)
  have g: "py_get colors u = Inr (CV colors u)" "py_get colors v = Inr (CV colors v)"
    using len u Cons.prems(2) by (simp_all add: py_get_vertex CV_def)
  have cv01: "CV colors v = 0 \<or> CV colors v = 1"
    using Cons.prems(1,2,3) by (auto simp: cols_ok_def)
  show ?case
  proof (cases "CV colors u = - 1")
    case True
    define c1 where "c1 = colors[nat u := 1 - CV colors v]"
    have uv: "u \<noteq> v" using True Cons.prems(3) by auto
    have c1: "\<And>w. vertex n w \<Longrightarrow> CV c1 w = (if w = u then 1 - CV colors v else CV colors w)"
      using len u by (simp add: c1_def CV_update)
    have ok1: "cols_ok n c1"
      unfolding cols_ok_def
    proof (intro conjI allI impI)
      show "length c1 = n" using len by (simp add: c1_def)
    next
      fix w assume w: "vertex n w"
      have "CV colors w = - 1 \<or> CV colors w = 0 \<or> CV colors w = 1"
        using Cons.prems(1) w by (simp add: cols_ok_def)
      then show "CV c1 w = - 1 \<or> CV c1 w = 0 \<or> CV c1 w = 1"
        using c1[OF w] cv01 by auto
    qed
    have v1: "CV c1 v \<noteq> - 1" using c1[OF Cons.prems(2)] uv Cons.prems(3) by simp
    have eq: "unc n c1 = unc n colors - {u}"
      using cv01 by (auto simp: unc_def c1 split: if_splits)
    have uin: "u \<in> unc n colors" using u True by (simp add: unc_def)
    have "card (unc n colors) = Suc (card (unc n colors - {u}))"
      by (rule card.remove[OF finite_unc uin])
    then have card1: "card (unc n c1) + 1 = card (unc n colors)"
      unfolding eq by simp
    from Cons.IH[OF ok1 Cons.prems(2) v1 us, of "q @ [u]"]
    obtain ok colors' q' where r: "colour_scan v us c1 (q @ [u]) = Inr (ok, colors', q')"
      and le: "card (unc n colors') + length q' \<le> card (unc n c1) + length (q @ [u])"
      by blast
    have "colour_scan v (u # us) colors q = Inr (ok, colors', q')"
      using g True len u r by (simp add: py_set_vertex c1_def)
    then show ?thesis using le card1 by auto
  next
    case False
    show ?thesis
    proof (cases "CV colors u = CV colors v")
      case True
      then have "colour_scan v (u # us) colors q = Inr (False, colors, q)"
        using g False by simp
      then show ?thesis by (intro exI[of _ False] exI[of _ colors] exI[of _ q]) simp
    next
      case ne: False
      from Cons.IH[OF Cons.prems(1,2,3) us, of q]
      obtain ok colors' q' where r: "colour_scan v us colors q = Inr (ok, colors', q')"
        and le: "card (unc n colors') + length q' \<le> card (unc n colors) + length q"
        by blast
      have "colour_scan v (u # us) colors q = Inr (ok, colors', q')"
        using g False ne r by simp
      then show ?thesis using le by auto
    qed
  qed
qed

lemma colour_bfs_total:
  assumes "adj_ok n adj" "cols_ok n colors" "\<forall>x\<in>set q. vertex n x \<and> CV colors x \<noteq> - 1"
  shows "\<exists>b colors'. colour_bfs adj colors q = Some (Inr (b, colors')) \<and> cols_ok n colors'"
  using assms(2,3)
proof (induction "card (unc n colors) + length q" arbitrary: colors q rule: less_induct)
  case less
  show ?case
  proof (cases q)
    case Nil
    then have "colour_bfs adj colors q = Some (Inr (True, colors))"
      by (subst colour_bfs.simps) simp
    then show ?thesis using less.prems(1) by blast
  next
    case (Cons v q0)
    have v: "vertex n v" "CV colors v \<noteq> - 1" using less.prems(2) Cons by simp_all
    have nb: "py_get adj v = Inr (adj ! nat v)"
      using assms(1) v(1) by (simp add: py_get_vertex adj_ok_def)
    have nbv: "\<forall>u\<in>set (adj ! nat v). vertex n u"
      using adj_ok_vertex[OF assms(1) v(1)] by blast
    from colour_scan_total[OF less.prems(1) v nbv, of q0]
    obtain ok c1 q1 where scan: "colour_scan v (adj ! nat v) colors q0 = Inr (ok, c1, q1)"
      and le: "card (unc n c1) + length q1 \<le> card (unc n colors) + length q0"
      by blast
    from colour_scan_post[OF scan less.prems(1) v nbv]
    have c1: "cols_ok n c1" and e: "ext n colors c1"
      and q1: "ok \<longrightarrow> (\<forall>x\<in>set q1. x \<in> set q0 \<or> (vertex n x \<and> CV c1 x \<noteq> - 1))"
      by simp_all
    have unf: "colour_bfs adj colors q =
               (if ok then colour_bfs adj c1 q1 else Some (Inr (False, c1)))"
      using Cons nb scan by (subst colour_bfs.simps) simp
    show ?thesis
    proof (cases ok)
      case False
      then show ?thesis using unf c1 by auto
    next
      case True
      have m: "card (unc n c1) + length q1 < card (unc n colors) + length q"
        using le Cons by simp
      have qq: "\<forall>x\<in>set q1. vertex n x \<and> CV c1 x \<noteq> - 1"
      proof
        fix x assume x: "x \<in> set q1"
        show "vertex n x \<and> CV c1 x \<noteq> - 1"
        proof (cases "x \<in> set q0")
          case True
          then have a: "vertex n x" "CV colors x \<noteq> - 1" using less.prems(2) Cons by simp_all
          then show ?thesis using extD[OF e a] by simp
        next
          case False
          then show ?thesis using q1 True x by blast
        qed
      qed
      from less.hyps[OF m c1 qq] show ?thesis using unf True by simp
    qed
  qed
qed

lemma colour_components_total:
  assumes "adj_ok n adj" "cols_ok n colors" "\<forall>s\<in>set ss. vertex n s"
  shows "\<exists>r. colour_components adj ss colors = Some (Inr r)"
  using assms(2,3)
proof (induction ss arbitrary: colors)
  case Nil
  then show ?case by auto
next
  case (Cons a ss)
  have a: "vertex n a" and ss: "\<forall>s\<in>set ss. vertex n s" using Cons.prems(2) by simp_all
  have len: "length colors = n" using Cons.prems(1) by (simp add: cols_ok_def)
  show ?case
  proof (cases "colors ! nat a \<noteq> - 1")
    case True
    then show ?thesis using Cons.IH[OF Cons.prems(1) ss] by simp
  next
    case False
    define c0 where "c0 = colors[nat a := 0]"
    have cw: "\<And>w. vertex n w \<Longrightarrow> CV c0 w = (if w = a then 0 else CV colors w)"
      using len a by (simp add: c0_def CV_update)
    have ok0: "cols_ok n c0"
      unfolding cols_ok_def
    proof (intro conjI allI impI)
      show "length c0 = n" using len by (simp add: c0_def)
    next
      fix w assume w: "vertex n w"
      have "CV colors w = - 1 \<or> CV colors w = 0 \<or> CV colors w = 1"
        using Cons.prems(1) w by (simp add: cols_ok_def)
      then show "CV c0 w = - 1 \<or> CV c0 w = 0 \<or> CV c0 w = 1"
        using cw[OF w] by auto
    qed
    have qa: "\<forall>x\<in>set [a]. vertex n x \<and> CV c0 x \<noteq> - 1" using a cw[OF a] by simp
    from colour_bfs_total[OF assms(1) ok0 qa]
    obtain b c1 where r: "colour_bfs adj c0 [a] = Some (Inr (b, c1))" and c1: "cols_ok n c1"
      by blast
    show ?thesis
    proof (cases b)
      case True
      then show ?thesis using False r Cons.IH[OF c1 ss] by (simp add: c0_def)
    next
      case False
      then show ?thesis using \<open>\<not> colors ! nat a \<noteq> - 1\<close> r by (auto simp: c0_def)
    qed
  qed
qed

lemma build_adj_total:
  assumes "adj_ok n adj0" "\<forall>(u, v)\<in>set edges. vertex n u \<and> vertex n v"
  shows "\<exists>adj. build_adj adj0 edges = Inr adj"
  using assms
proof (induction edges arbitrary: adj0)
  case Nil
  then show ?case by simp
next
  case (Cons e es)
  obtain u v where e: "e = (u, v)" by (cases e)
  have uv: "vertex n u" "vertex n v" using Cons.prems(2) e by auto
  have rest: "\<forall>(u, v)\<in>set es. vertex n u \<and> vertex n v" using Cons.prems(2) by simp
  define a1 where "a1 = adj0[nat u := adj0 ! nat u @ [v]]"
  define a2 where "a2 = a1[nat v := a1 ! nat v @ [u]]"
  have ok1: "adj_ok n a1" unfolding a1_def using adj_ok_append[OF Cons.prems(1) uv] .
  have ok2: "adj_ok n a2" unfolding a2_def using adj_ok_append[OF ok1 uv(2,1)] .
  have l0: "length adj0 = n" using Cons.prems(1) by (simp add: adj_ok_def)
  have l1: "length a1 = n" using ok1 by (simp add: adj_ok_def)
  have s1: "append_at adj0 u v = Inr a1" using append_at_vertex[of adj0 u v] uv l0 by (simp add: a1_def)
  have s2: "append_at a1 v u = Inr a2" using append_at_vertex[of a1 v u] uv l1 by (simp add: a2_def)
  from Cons.IH[OF ok2 rest] show ?case using e s1 s2 by simp
qed

lemma cols_ok_init: "cols_ok n (py_replicate (int n) (- 1))"
  by (simp add: cols_ok_def py_replicate_def CV_def vertex_def nat_less_iff)

lemma range_vertex: "\<forall>s\<in>set (py_range 0 (int n)). vertex n s"
  by (auto simp: py_range_def vertex_def)

lemma check_bipartite_total:
  assumes "\<forall>(u, v)\<in>set edges. vertex n u \<and> vertex n v"
  shows "\<exists>r. check_bipartite (int n) edges = Some (Inr r)"
proof -
  have ok0: "adj_ok n (map (\<lambda>_. []) (py_range 0 (int n)))" using empty_adj_ok by simp
  from build_adj_total[OF ok0 assms] obtain adj where
    ba: "build_adj (map (\<lambda>_. []) (py_range 0 (int n))) edges = Inr adj" by blast
  from build_adj_post[OF ba ok0 assms] have ok: "adj_ok n adj" by simp
  from colour_components_total[OF ok cols_ok_init range_vertex]
  show ?thesis using ba by (simp add: check_bipartite_def)
qed

lemma finite_infs: "finite (infs n d)"
  using finite_vertices[of n] by (simp add: infs_def)

lemma nat_vertex_neq: "vertex n a \<Longrightarrow> vertex n b \<Longrightarrow> a \<noteq> b \<Longrightarrow> nat a \<noteq> nat b"
  unfolding vertex_def by (metis nat_0_le)

lemma only_infD:
  assumes "only_inf d d1" "length d = n" "vertex n w" "d ! nat w < \<infinity>"
  shows "d1 ! nat w = d ! nat w"
proof -
  have "nat w < length d" using assms(2,3) by (simp add: vertex_def nat_less_iff)
  then show ?thesis using assms(1,4) unfolding only_inf_def by (metis less_irrefl)
qed

lemma bfs_init_total:
  assumes "length d = n" "length pv = n" "\<forall>v\<in>set vs. vertex n v"
  shows "\<exists>d1 dq1. bfs_init pv vs d dq = Inr (d1, dq1) \<and>
           (\<forall>x\<in>set dq1. x \<in> set dq \<or> (x \<in> set vs \<and> pv ! nat x = - 1))"
  using assms
proof (induction vs arbitrary: d dq)
  case Nil
  then show ?case by simp
next
  case (Cons v vs)
  have v: "vertex n v" and vs: "\<forall>v\<in>set vs. vertex n v" using Cons.prems(3) by simp_all
  have g: "py_get pv v = Inr (pv ! nat v)" using v Cons.prems(2) by (simp add: py_get_vertex)
  show ?case
  proof (cases "pv ! nat v = - 1")
    case True
    have st: "py_set d v 0 = Inr (d[nat v := 0])" using v Cons.prems(1) by (simp add: py_set_vertex)
    have len: "length (d[nat v := 0]) = n" using Cons.prems(1) by simp
    from Cons.IH[OF len Cons.prems(2) vs, of "dq @ [v]"]
    obtain d1 dq1 where r: "bfs_init pv vs (d[nat v := 0]) (dq @ [v]) = Inr (d1, dq1)"
      and q: "\<forall>x\<in>set dq1. x \<in> set (dq @ [v]) \<or> (x \<in> set vs \<and> pv ! nat x = - 1)"
      by blast
    have "bfs_init pv (v # vs) d dq = Inr (d1, dq1)" using g True st r by simp
    moreover have "\<forall>x\<in>set dq1. x \<in> set dq \<or> (x \<in> set (v # vs) \<and> pv ! nat x = - 1)"
      using q True by auto
    ultimately show ?thesis by blast
  next
    case False
    have st: "py_set d v \<infinity> = Inr (d[nat v := \<infinity>])"
      using v Cons.prems(1) by (simp add: py_set_vertex)
    have len: "length (d[nat v := \<infinity>]) = n" using Cons.prems(1) by simp
    from Cons.IH[OF len Cons.prems(2) vs, of dq]
    obtain d1 dq1 where r: "bfs_init pv vs (d[nat v := \<infinity>]) dq = Inr (d1, dq1)"
      and q: "\<forall>x\<in>set dq1. x \<in> set dq \<or> (x \<in> set vs \<and> pv ! nat x = - 1)"
      by blast
    have "bfs_init pv (v # vs) d dq = Inr (d1, dq1)" using g False st r by simp
    moreover have "\<forall>x\<in>set dq1. x \<in> set dq \<or> (x \<in> set (v # vs) \<and> pv ! nat x = - 1)"
      using q by auto
    ultimately show ?thesis by blast
  qed
qed

lemma bfs_scan_total:
  assumes "length d = n" "length pu = n" "vertex n v" "d ! nat v < \<infinity>"
    "\<forall>u\<in>set us. vertex n u"
    "\<forall>x. vertex n x \<and> pu ! nat x \<noteq> - 1 \<longrightarrow> vertex n (pu ! nat x)"
  shows "\<exists>d1 dq1 f1. bfs_scan pu v us d dq found = Inr (d1, dq1, f1) \<and> length d1 = n \<and>
           card (infs n d1) + length dq1 \<le> card (infs n d) + length dq \<and>
           (\<forall>x\<in>set dq1. x \<in> set dq \<or>
              (vertex n x \<and> (\<exists>u\<in>set us. pu ! nat u = x \<and> x \<noteq> - 1) \<and>
               d1 ! nat x = d ! nat v + 1)) \<and>
           (f1 \<longrightarrow> found \<or> (\<exists>u\<in>set us. pu ! nat u = - 1))"
  using assms(1,4,5)
proof (induction us arbitrary: d dq found)
  case Nil
  then show ?case by simp
next
  case (Cons u us)
  have u: "vertex n u" and us: "\<forall>u\<in>set us. vertex n u" using Cons.prems(3) by simp_all
  have gu: "py_get pu u = Inr (pu ! nat u)" using u assms(2) by (simp add: py_get_vertex)
  show ?case
  proof (cases "pu ! nat u = - 1")
    case True
    from Cons.IH[OF Cons.prems(1,2) us, of dq True]
    obtain d1 dq1 f1 where r: "bfs_scan pu v us d dq True = Inr (d1, dq1, f1)"
      and p: "length d1 = n" "card (infs n d1) + length dq1 \<le> card (infs n d) + length dq"
        "\<forall>x\<in>set dq1. x \<in> set dq \<or>
              (vertex n x \<and> (\<exists>u\<in>set us. pu ! nat u = x \<and> x \<noteq> - 1) \<and>
               d1 ! nat x = d ! nat v + 1)"
      by blast
    have "bfs_scan pu v (u # us) d dq found = Inr (d1, dq1, f1)" using gu True r by simp
    moreover have "\<forall>x\<in>set dq1. x \<in> set dq \<or>
              (vertex n x \<and> (\<exists>u\<in>set (u # us). pu ! nat u = x \<and> x \<noteq> - 1) \<and>
               d1 ! nat x = d ! nat v + 1)"
      using p(3) by auto
    moreover have "f1 \<longrightarrow> found \<or> (\<exists>u\<in>set (u # us). pu ! nat u = - 1)" using True by simp
    ultimately show ?thesis using p(1,2) by blast
  next
    case False
    define p where "p = pu ! nat u"
    have p: "vertex n p" "p \<noteq> - 1" "pu ! nat u = p" using assms(6) u False by (simp_all add: p_def)
    have gp: "py_get d p = Inr (d ! nat p)" "py_get d v = Inr (d ! nat v)"
      using p(1) assms(3) Cons.prems(1) by (simp_all add: py_get_vertex)
    show ?thesis
    proof (cases "d ! nat p = \<infinity>")
      case inf: True
      define d2 where "d2 = d[nat p := d ! nat v + 1]"
      have st: "py_set d p (d ! nat v + 1) = Inr d2"
        using p(1) Cons.prems(1) by (simp add: py_set_vertex d2_def)
      have pv: "p \<noteq> v" using inf Cons.prems(2) by auto
      have np: "nat p \<noteq> nat v" using nat_vertex_neq[OF p(1) assms(3) pv] .
      have len2: "length d2 = n" using Cons.prems(1) by (simp add: d2_def)
      have d2v: "d2 ! nat v = d ! nat v" using np by (simp add: d2_def)
      have fin2: "d2 ! nat v < \<infinity>" using d2v Cons.prems(2) by simp
      have d2p: "d2 ! nat p = d ! nat v + 1"
        using p(1) Cons.prems(1) by (simp add: d2_def vertex_def nat_less_iff)
      have d2pfin: "d2 ! nat p < \<infinity>"
        using d2p Cons.prems(2) by (cases "d ! nat v") (simp_all add: one_enat_def)
      have eq: "infs n d2 = infs n d - {p}"
      proof (intro set_eqI iffI)
        fix x assume "x \<in> infs n d2"
        then have x: "vertex n x" "d2 ! nat x = \<infinity>" by (simp_all add: infs_def)
        have "x \<noteq> p" using x(2) d2pfin by auto
        then have "nat x \<noteq> nat p" using nat_vertex_neq[OF x(1) p(1)] by simp
        then have "d ! nat x = \<infinity>" using x(2) by (simp add: d2_def)
        then show "x \<in> infs n d - {p}" using x(1) \<open>x \<noteq> p\<close> by (simp add: infs_def)
      next
        fix x assume "x \<in> infs n d - {p}"
        then have x: "vertex n x" "d ! nat x = \<infinity>" "x \<noteq> p" by (simp_all add: infs_def)
        have "nat x \<noteq> nat p" using nat_vertex_neq[OF x(1) p(1) x(3)] .
        then have "d2 ! nat x = \<infinity>" using x(2) by (simp add: d2_def)
        then show "x \<in> infs n d2" using x(1) by (simp add: infs_def)
      qed
      have pin: "p \<in> infs n d" using p(1) inf by (simp add: infs_def)
      have "card (infs n d) = Suc (card (infs n d - {p}))"
        by (rule card.remove[OF finite_infs pin])
      then have card2: "card (infs n d2) + 1 = card (infs n d)" unfolding eq by simp
      from Cons.IH[OF len2 fin2 us, of "dq @ [p]" found]
      obtain d1 dq1 f1 where r: "bfs_scan pu v us d2 (dq @ [p]) found = Inr (d1, dq1, f1)"
        and q: "length d1 = n"
          "card (infs n d1) + length dq1 \<le> card (infs n d2) + length (dq @ [p])"
          "\<forall>x\<in>set dq1. x \<in> set (dq @ [p]) \<or>
              (vertex n x \<and> (\<exists>u\<in>set us. pu ! nat u = x \<and> x \<noteq> - 1) \<and>
               d1 ! nat x = d2 ! nat v + 1)"
          "f1 \<longrightarrow> found \<or> (\<exists>u\<in>set us. pu ! nat u = - 1)"
        by blast
      have oi: "only_inf d2 d1" using r by (rule bfs_scan_only_inf)
      have d1p: "d1 ! nat p = d ! nat v + 1"
        using only_infD[OF oi len2 p(1) d2pfin] d2p by simp
      have run: "bfs_scan pu v (u # us) d dq found = Inr (d1, dq1, f1)"
        using gu gp p inf st r by simp
      have m: "card (infs n d1) + length dq1 \<le> card (infs n d) + length dq"
        using q(2) card2 by simp
      have qq: "\<forall>x\<in>set dq1. x \<in> set dq \<or>
              (vertex n x \<and> (\<exists>u\<in>set (u # us). pu ! nat u = x \<and> x \<noteq> - 1) \<and>
               d1 ! nat x = d ! nat v + 1)"
      proof
        fix x assume "x \<in> set dq1"
        then have "x \<in> set (dq @ [p]) \<or>
              (vertex n x \<and> (\<exists>u\<in>set us. pu ! nat u = x \<and> x \<noteq> - 1) \<and>
               d1 ! nat x = d2 ! nat v + 1)" using q(3) by blast
        then show "x \<in> set dq \<or>
              (vertex n x \<and> (\<exists>u\<in>set (u # us). pu ! nat u = x \<and> x \<noteq> - 1) \<and>
               d1 ! nat x = d ! nat v + 1)"
          using d2v d1p p by auto
      qed
      have ff: "f1 \<longrightarrow> found \<or> (\<exists>u\<in>set (u # us). pu ! nat u = - 1)" using q(4) by auto
      show ?thesis using run q(1) m qq ff by blast
    next
      case fin: False
      from Cons.IH[OF Cons.prems(1,2) us, of dq found]
      obtain d1 dq1 f1 where r: "bfs_scan pu v us d dq found = Inr (d1, dq1, f1)"
        and q: "length d1 = n"
          "card (infs n d1) + length dq1 \<le> card (infs n d) + length dq"
          "\<forall>x\<in>set dq1. x \<in> set dq \<or>
              (vertex n x \<and> (\<exists>u\<in>set us. pu ! nat u = x \<and> x \<noteq> - 1) \<and>
               d1 ! nat x = d ! nat v + 1)"
          "f1 \<longrightarrow> found \<or> (\<exists>u\<in>set us. pu ! nat u = - 1)"
        by blast
      have run: "bfs_scan pu v (u # us) d dq found = Inr (d1, dq1, f1)"
        using gu gp p fin r by (simp del: not_infinity_eq)
      have qq: "\<forall>x\<in>set dq1. x \<in> set dq \<or>
              (vertex n x \<and> (\<exists>u\<in>set (u # us). pu ! nat u = x \<and> x \<noteq> - 1) \<and>
               d1 ! nat x = d ! nat v + 1)"
        using q(3) by auto
      have ff: "f1 \<longrightarrow> found \<or> (\<exists>u\<in>set (u # us). pu ! nat u = - 1)" using q(4) by auto
      show ?thesis using run q(1,2) qq ff by blast
    qed
  qed
qed


lemma enat_suc_finite: "(a :: enat) < \<infinity> \<Longrightarrow> a + 1 < \<infinity>"
  by (cases a) (simp_all add: one_enat_def)

lemma bfs_layers_total:
  assumes ok: "adj_ok n fa" and lpu: "length pu = n"
    and puok: "\<forall>x. vertex n x \<and> pu ! nat x \<noteq> - 1 \<longrightarrow> vertex n (pu ! nat x)"
    and len: "length d = n" and q: "\<forall>x\<in>set dq. vertex n x \<and> d ! nat x < \<infinity>"
  shows "\<exists>d' found'. bfs_layers fa pu d dq found = Some (Inr (d', found')) \<and>
           ((\<forall>x\<in>set dq. aug n fa pu d' x \<longrightarrow> X d') \<longrightarrow> (found \<longrightarrow> X d') \<longrightarrow> found' \<longrightarrow> X d')"
  using len q
proof (induction "card (infs n d) + length dq" arbitrary: d dq found rule: less_induct)
  case less
  show ?case
  proof (cases dq)
    case Nil
    then have "bfs_layers fa pu d dq found = Some (Inr (d, found))"
      by (subst bfs_layers.simps) simp
    then show ?thesis by blast
  next
    case (Cons v q0)
    have v: "vertex n v" and dv: "d ! nat v < \<infinity>" using less.prems(2) Cons by simp_all
    have nb: "py_get fa v = Inr (fa ! nat v)" using ok v by (simp add: py_get_vertex adj_ok_def)
    have nbv: "\<forall>u\<in>set (fa ! nat v). vertex n u" using adj_ok_vertex[OF ok v] by blast
    from bfs_scan_total[OF less.prems(1) lpu v dv nbv puok, of q0 found]
    obtain d1 dq1 f1 where scan: "bfs_scan pu v (fa ! nat v) d q0 found = Inr (d1, dq1, f1)"
      and len1: "length d1 = n"
      and m: "card (infs n d1) + length dq1 \<le> card (infs n d) + length q0"
      and new: "\<forall>x\<in>set dq1. x \<in> set q0 \<or>
              (vertex n x \<and> (\<exists>u\<in>set (fa ! nat v). pu ! nat u = x \<and> x \<noteq> - 1) \<and>
               d1 ! nat x = d ! nat v + 1)"
      and ff: "f1 \<longrightarrow> found \<or> (\<exists>u\<in>set (fa ! nat v). pu ! nat u = - 1)"
      by blast
    have oi: "only_inf d d1" using scan by (rule bfs_scan_only_inf)
    have q1: "\<forall>x\<in>set dq1. vertex n x \<and> d1 ! nat x < \<infinity>"
    proof
      fix x assume x: "x \<in> set dq1"
      show "vertex n x \<and> d1 ! nat x < \<infinity>"
      proof (cases "x \<in> set q0")
        case True
        then have a: "vertex n x" "d ! nat x < \<infinity>" using less.prems(2) Cons by simp_all
        then show ?thesis using only_infD[OF oi less.prems(1) a] by simp
      next
        case False
        then have "vertex n x" "d1 ! nat x = d ! nat v + 1" using new x by blast+
        then show ?thesis using enat_suc_finite[OF dv] by simp
      qed
    qed
    have m': "card (infs n d1) + length dq1 < card (infs n d) + length dq" using m Cons by simp
    from less.hyps[OF m' len1 q1, of f1]
    obtain d' found' where run1: "bfs_layers fa pu d1 dq1 f1 = Some (Inr (d', found'))"
      and prop1: "(\<forall>x\<in>set dq1. aug n fa pu d' x \<longrightarrow> X d') \<longrightarrow> (f1 \<longrightarrow> X d') \<longrightarrow> found' \<longrightarrow> X d'"
      by blast
    have run: "bfs_layers fa pu d dq found = Some (Inr (d', found'))"
      using Cons nb scan run1 by (subst bfs_layers.simps) simp
    have oi': "only_inf d1 d'" using run1 by (rule bfs_layers_only_inf)
    have d1v: "d1 ! nat v = d ! nat v" using only_infD[OF oi less.prems(1) v dv] .
    have d'v: "d' ! nat v = d ! nat v" using only_infD[OF oi' len1 v] d1v dv by simp
    have "found' \<longrightarrow> X d'"
      if A: "\<forall>x\<in>set dq. aug n fa pu d' x \<longrightarrow> X d'" and B: "found \<longrightarrow> X d'"
    proof -
      have Av: "aug n fa pu d' v \<Longrightarrow> X d'" using A Cons by simp
      have A1: "\<forall>x\<in>set dq1. aug n fa pu d' x \<longrightarrow> X d'"
      proof (intro ballI impI)
        fix x assume x: "x \<in> set dq1" and ax: "aug n fa pu d' x"
        show "X d'"
        proof (cases "x \<in> set q0")
          case True
          then show ?thesis using A Cons ax by auto
        next
          case False
          then obtain u where u: "u \<in> set (fa ! nat v)" "pu ! nat u = x" "x \<noteq> - 1"
            and vx: "vertex n x" and dx: "d1 ! nat x = d ! nat v + 1"
            using new x by blast
          have "d1 ! nat x < \<infinity>" using dx enat_suc_finite[OF dv] by simp
          then have "d' ! nat x = d' ! nat v + 1" using only_infD[OF oi' len1 vx] dx d'v by simp
          then have "aug n fa pu d' v"
            using aug_step[of n v d' u fa pu] v d'v dv u ax by simp
          then show ?thesis by (rule Av)
        qed
      qed
      have B1: "f1 \<longrightarrow> X d'"
      proof
        assume f1
        then consider found | u where "u \<in> set (fa ! nat v)" "pu ! nat u = - 1" using ff by blast
        then show "X d'"
        proof cases
          case 1
          then show ?thesis using B by simp
        next
          case 2
          then have "aug n fa pu d' v" using aug_free[of n v d' u fa pu] v d'v dv by simp
          then show ?thesis by (rule Av)
        qed
      qed
      show ?thesis using prop1 A1 B1 by blast
    qed
    then show ?thesis using run by blast
  qed
qed

lemma bfs_total:
  assumes inv: "phase_inv n fa s" and left: "\<forall>v\<in>set left. vertex n v"
  shows "\<exists>found s1. bfs fa left s = Some (Inr (found, s1)) \<and>
           (found \<longrightarrow> (\<exists>r\<in>set left. PV s r = - 1 \<and> augs n fa s1 r))"
proof -
  have ok: "adj_ok n fa" and l: "lens n s" and i2: "I2x n s (- 1)"
    using inv by (simp_all add: phase_inv_def)
  have ld: "length (dists s) = n" and lpv: "length (pair_v s) = n" and lpu: "length (pair_u s) = n"
    using l by (simp_all add: lens_def)
  from bfs_init_total[OF ld lpv left, of "[]"]
  obtain d dq where init: "bfs_init (pair_v s) left (dists s) [] = Inr (d, dq)"
    and dq: "\<forall>x\<in>set dq. x \<in> set left \<and> pair_v s ! nat x = - 1"
    by auto
  from bfs_init_post[OF init ld lpv left]
  have len: "length d = n"
    and dw: "\<And>w. vertex n w \<Longrightarrow> d ! nat w =
       (if w \<in> set left then (if pair_v s ! nat w = - 1 then 0 else \<infinity>) else dists s ! nat w)"
    by simp_all
  have q: "\<forall>x\<in>set dq. vertex n x \<and> d ! nat x < \<infinity>"
  proof
    fix x assume "x \<in> set dq"
    then have x: "x \<in> set left" "pair_v s ! nat x = - 1" using dq by simp_all
    then have "vertex n x" using left by simp
    then show "vertex n x \<and> d ! nat x < \<infinity>" using dw[of x] x by simp
  qed
  have puok: "\<forall>x. vertex n x \<and> pair_u s ! nat x \<noteq> - 1 \<longrightarrow> vertex n (pair_u s ! nat x)"
    using I2D[OF i2] by (simp add: PU_def)
  define X where "X = (\<lambda>d'. \<exists>r\<in>set left. PV s r = - 1 \<and> aug n fa (pair_u s) d' r)"
  from bfs_layers_total[OF ok lpu puok len q, of False X]
  obtain d' found' where run: "bfs_layers fa (pair_u s) d dq False = Some (Inr (d', found'))"
    and pr: "(\<forall>x\<in>set dq. aug n fa (pair_u s) d' x \<longrightarrow> X d') \<longrightarrow> found' \<longrightarrow> X d'"
    by auto
  have "\<forall>x\<in>set dq. aug n fa (pair_u s) d' x \<longrightarrow> X d'"
    using dq by (auto simp: X_def PV_def)
  then have "found' \<longrightarrow> X d'" using pr by blast
  moreover have "bfs fa left s = Some (Inr (found', s\<lparr>dists := d'\<rparr>))"
    using init run by (simp add: bfs_def)
  ultimately show ?thesis by (auto simp: X_def augs_def)
qed

lemma finite_below: "finite (below n s v)"
  using finite_vertices[of n] by (simp add: below_def)

lemma aug_vertex: "aug n fa pu d v \<Longrightarrow> vertex n v \<and> d ! nat v < \<infinity>"
  by (erule aug.cases) simp_all

lemma fin_keep:
  assumes "a \<noteq> b \<Longrightarrow> a = (\<infinity> :: enat)" "a < \<infinity>"
  shows "a = b"
  using assms by (cases "a = b") simp_all

lemma augs_mono:
  assumes sp: "same_pairs s s1"
    and ch: "\<And>w. vertex n w \<Longrightarrow> DV s1 w \<noteq> DV s w \<Longrightarrow> DV s1 w = \<infinity>"
    and a: "augs n fa s1 w"
  shows "augs n fa s w"
proof -
  have pu: "pair_u s1 = pair_u s" using sp by (simp add: same_pairs_def)
  have keep: "dists s ! nat x = dists s1 ! nat x" if "vertex n x" "dists s1 ! nat x < \<infinity>" for x
    using fin_keep[of "dists s1 ! nat x" "dists s ! nat x"] ch[OF that(1)] that(2)
    by (simp add: DV_def)
  have "aug n fa (pair_u s1) (dists s1) w" using a by (simp add: augs_def)
  then have "aug n fa (pair_u s) (dists s) w"
  proof (induction rule: aug.induct)
    case (aug_free v u)
    then show ?case using keep[of v] pu aug.aug_free[of n v "dists s" u fa "pair_u s"] by simp
  next
    case (aug_step v u)
    have vp: "vertex n (pair_u s1 ! nat u)" "dists s1 ! nat (pair_u s1 ! nat u) < \<infinity>"
      using aug_vertex[OF aug_step.hyps(6)] by simp_all
    show ?case
      using aug_step.hyps(1-5) aug_step.IH keep[of v] keep[OF vp] pu
        aug.aug_step[of n v "dists s" u fa "pair_u s"] by simp
  qed
  then show ?thesis by (simp add: augs_def)
qed

lemma augs_keep:
  assumes sp: "same_pairs s s1" and dm: "dead_marks n fa s s1" and a: "augs n fa s w"
  shows "augs n fa s1 w"
proof -
  have pu: "pair_u s1 = pair_u s" using sp by (simp add: same_pairs_def)
  have keep: "dists s1 ! nat x = dists s ! nat x" if "aug n fa (pair_u s) (dists s) x" for x
    using dm that aug_vertex[OF that] by (auto simp: dead_marks_def augs_def DV_def)
  have "aug n fa (pair_u s) (dists s) w" using a by (simp add: augs_def)
  then have "aug n fa (pair_u s1) (dists s1) w"
  proof (induction rule: aug.induct)
    case (aug_free v u)
    have "aug n fa (pair_u s) (dists s) v"
      using aug.aug_free[OF aug_free.hyps] .
    from keep[OF this] show ?case
      using aug_free.hyps pu aug.aug_free[of n v "dists s1" u fa "pair_u s1"] by simp
  next
    case (aug_step v u)
    have "aug n fa (pair_u s) (dists s) v"
      using aug.aug_step[OF aug_step.hyps] .
    from keep[OF this] keep[OF aug_step.hyps(6)] show ?case
      using aug_step.hyps(1-5) aug_step.IH pu
        aug.aug_step[of n v "dists s1" u fa "pair_u s1"] by simp
  qed
  then show ?thesis by (simp add: augs_def)
qed

lemma scanned_none:
  assumes "scanned n fa v [] s"
  shows "\<not> augs n fa s v"
proof
  assume "augs n fa s v"
  then have "aug n fa (pair_u s) (dists s) v" by (simp add: augs_def)
  then show False
  proof (cases rule: aug.cases)
    case (aug_free u)
    then show ?thesis using assms by (auto simp: scanned_def PU_def)
  next
    case (aug_step u)
    then show ?thesis using assms by (auto simp: scanned_def PU_def DV_def augs_def)
  qed
qed

lemma dfs_loop_total_aux:
  "card (below n s v) < k \<Longrightarrow> dfs_pre n fa v us s \<Longrightarrow>
   \<exists>r. dfs_loop depth fa v us s = Some r \<and>
       (\<forall>e. r = Inl e \<longrightarrow> e = RecursionError \<and> depth < card (below n s v)) \<and>
       (\<forall>s'. r = Inr (False, s') \<longrightarrow> scanned n fa v us s \<longrightarrow>
             dead_marks n fa s s' \<and> DV s' v = \<infinity>)"
proof (induction k arbitrary: v us s depth)
  case 0
  then show ?case by simp
next
  case (Suc k)
  from Suc.prems show ?case
  proof (induction us arbitrary: s)
    case Nil
    have l: "lens n s" and v: "vertex n v" using Nil.prems(2) by (simp_all add: dfs_pre_def)
    have lv: "vertex (length (dists s)) v" using l v by (simp add: lens_def)
    define s' where "s' = s\<lparr>dists := (dists s)[nat v := \<infinity>]\<rparr>"
    have run: "dfs_loop depth fa v [] s = Some (Inr (False, s'))"
      using lv by (simp add: dfs_loop.simps[of depth fa v "[]" s] py_set_vertex s'_def)
    have dv: "DV s' v = \<infinity>" using lv by (simp add: s'_def DV_def vertex_def nat_less_iff)
    have "dead_marks n fa s s'" if sc: "scanned n fa v [] s"
      unfolding dead_marks_def
    proof (intro allI impI)
      fix w assume w: "vertex n w \<and> DV s' w \<noteq> DV s w"
      have "w = v"
      proof (rule ccontr)
        assume "w \<noteq> v"
        then have "nat w \<noteq> nat v" using nat_vertex_neq[of n w v] w v by simp
        then have "DV s' w = DV s w" by (simp add: s'_def DV_def)
        then show False using w by simp
      qed
      then show "\<not> augs n fa s w" using scanned_none[OF sc] by simp
    qed
    then show ?case using run dv by simp
  next
    case (Cons u us1)
    have pre: "dfs_pre n fa v (u # us1) s" using Cons.prems(2) .
    then have ok: "adj_ok n fa" and l: "lens n s" and i1: "I1 n fa s" and i2: "I2x n s (- 1)"
      and v: "vertex n v" and sub: "set (u # us1) \<subseteq> set (fa ! nat v)" and fin: "DV s v < \<infinity>"
      by (simp_all add: dfs_pre_def)
    have u: "vertex n u" "u \<in> set (fa ! nat v)"
      using sub adj_ok_vertex[OF ok v] by auto
    have sub1: "set us1 \<subseteq> set (fa ! nat v)" using sub by simp
    have gu: "py_get (pair_u s) u = Inr (PU s u)"
      using l u(1) by (simp add: py_get_vertex lens_def PU_def)
    show ?case
    proof (cases "PU s u = - 1")
      case True
      have "dfs_loop depth fa v (u # us1) s = Some (Inr (True, assign v u s))"
        using gu True set_pair_assign[OF l v u(1)]
        by (simp add: dfs_loop.simps[of depth fa v "u # us1" s])
      then show ?thesis by simp
    next
      case False
      define p where "p = PU s u"
      have p: "vertex n p" "p \<noteq> - 1" "PU s u = p"
        using I2D[OF i2 u(1) False] False by (simp_all add: p_def)
      have gp: "py_get (dists s) p = Inr (DV s p)" "py_get (dists s) v = Inr (DV s v)"
        "py_get fa p = Inr (fa ! nat p)"
        using l p(1) v ok by (simp_all add: py_get_vertex lens_def DV_def adj_ok_def)
      show ?thesis
      proof (cases "DV s p = DV s v + 1")
        case skip: False
        have run: "dfs_loop depth fa v (u # us1) s = dfs_loop depth fa v us1 s"
          using gu gp p skip by (simp add: dfs_loop.simps[of depth fa v "u # us1" s])
        have pre1: "dfs_pre n fa v us1 s" using pre sub1 by (simp add: dfs_pre_def)
        from Cons.IH[OF Cons.prems(1) pre1]
        obtain r where r: "dfs_loop depth fa v us1 s = Some r"
          and er: "\<forall>e. r = Inl e \<longrightarrow> e = RecursionError \<and> depth < card (below n s v)"
          and pp: "\<forall>s'. r = Inr (False, s') \<longrightarrow> scanned n fa v us1 s \<longrightarrow>
                     dead_marks n fa s s' \<and> DV s' v = \<infinity>"
          by blast
        have "scanned n fa v us1 s" if "scanned n fa v (u # us1) s"
          using that p skip by (auto simp: scanned_def)
        then have "\<forall>s'. r = Inr (False, s') \<longrightarrow> scanned n fa v (u # us1) s \<longrightarrow>
                     dead_marks n fa s s' \<and> DV s' v = \<infinity>"
          using pp by blast
        then show ?thesis using run r er by simp
      next
        case True
        have lt: "DV s v < DV s p"
          using fin True by (cases "DV s v") (simp_all add: one_enat_def)
        have finp: "DV s p < \<infinity>" using True enat_suc_finite[OF fin] by simp
        have prep: "dfs_pre n fa p (fa ! nat p) s"
          using ok l i1 i2 p(1) finp by (simp add: dfs_pre_def)
        have "below n s p \<subset> below n s v"
        proof
          show "below n s p \<subseteq> below n s v" using lt by (auto simp: below_def)
          have "p \<in> below n s v" "p \<notin> below n s p" using p(1) lt finp by (simp_all add: below_def)
          then show "below n s p \<noteq> below n s v" by blast
        qed
        then have cpv: "card (below n s p) < card (below n s v)"
          using finite_below by (rule psubset_card_mono[rotated])
        then have cp: "card (below n s p) < k" using Cons.prems(1) by simp
        show ?thesis
        proof (cases "depth = 0")
          case d0: True
          have "dfs_loop depth fa v (u # us1) s = Some (Inl RecursionError)"
            using gu gp p True by (simp add: d0 dfs_loop.simps[of 0 fa v "u # us1" s])
          then show ?thesis using d0 cpv by simp
        next
          case deep: False
          from Suc.IH[OF cp prep, of "depth - 1"]
          obtain r1 where r1: "dfs_loop (depth - 1) fa p (fa ! nat p) s = Some r1"
            and er1: "\<forall>e. r1 = Inl e \<longrightarrow> e = RecursionError \<and> depth - 1 < card (below n s p)"
            and pp1: "\<forall>s1. r1 = Inr (False, s1) \<longrightarrow> scanned n fa p (fa ! nat p) s \<longrightarrow>
                        dead_marks n fa s s1 \<and> DV s1 p = \<infinity>"
            by blast
          show ?thesis
          proof (cases r1)
            case (Inl e)
            then have e: "e = RecursionError" "depth - 1 < card (below n s p)" using er1 by simp_all
            have "dfs_loop depth fa v (u # us1) s = Some (Inl e)"
              using gu gp p True deep r1 Inl
              by (simp add: dfs_loop.simps[of depth fa v "u # us1" s])
            moreover have "depth < card (below n s v)" using e(2) cpv by simp
            ultimately show ?thesis using e(1) by simp
          next
            case (Inr bs)
            obtain b1 s1 where bs: "bs = (b1, s1)" by (cases bs)
            have r1': "dfs_loop (depth - 1) fa p (fa ! nat p) s = Some (Inr (b1, s1))"
              using r1 Inr bs by simp
            have post1: "dfs_post n fa p s (Inr (b1, s1))" using dfs_loop_post[OF r1' prep] .
            then have l1: "lens n s1" and dc1: "dchange n p s s1"
              and rest: "if b1 then post_ok n fa p s s1 else same_pairs s s1"
              by (simp_all add: dfs_post_def)
            show ?thesis
            proof (cases b1)
              case b1: True
              have "dfs_loop depth fa v (u # us1) s = Some (Inr (True, assign v u s1))"
                using gu gp p True deep r1' b1 set_pair_assign[OF l1 v u(1)]
                by (simp add: dfs_loop.simps[of depth fa v "u # us1" s])
              then show ?thesis by simp
            next
              case b1: False
              then have sp: "same_pairs s s1" using rest by simp
              have dp: "deeper n v s s1" using dc1 lt by (rule dchange_deeper)
              have dv: "DV s1 v = DV s v" using deeper_keeps[OF dp v] by simp
              have ch: "\<And>w. vertex n w \<Longrightarrow> DV s1 w \<noteq> DV s w \<Longrightarrow> DV s1 w = \<infinity>"
                using dchangeD[OF dc1] by blast
              have dm1: "dead_marks n fa s s1" and dp1: "DV s1 p = \<infinity>"
                using pp1 Inr bs b1 by (simp_all add: scanned_def)
              have run: "dfs_loop depth fa v (u # us1) s = dfs_loop depth fa v us1 s1"
                using gu gp p True deep r1' b1
                by (simp add: dfs_loop.simps[of depth fa v "u # us1" s])
              have pre1: "dfs_pre n fa v us1 s1"
                using ok l1 i1 i2 v sub1 fin dv same_pairs_I1[OF sp] same_pairs_I2x[OF sp]
                by (simp add: dfs_pre_def)
              have "below n s1 v \<subseteq> below n s v"
              proof
                fix w assume "w \<in> below n s1 v"
                then have w: "vertex n w" "DV s1 v < DV s1 w" "DV s1 w < \<infinity>"
                  by (simp_all add: below_def)
                have "DV s1 w = DV s w" using fin_keep[OF ch[OF w(1)] w(3)] .
                then show "w \<in> below n s v" using w dv by (simp add: below_def)
              qed
              then have cle: "card (below n s1 v) \<le> card (below n s v)"
                using finite_below by (rule card_mono[rotated])
              then have c1: "card (below n s1 v) < Suc k" using Cons.prems(1) by simp
              from Cons.IH[OF c1 pre1]
              obtain r where r: "dfs_loop depth fa v us1 s1 = Some r"
                and er: "\<forall>e. r = Inl e \<longrightarrow> e = RecursionError \<and> depth < card (below n s1 v)"
                and pp: "\<forall>s'. r = Inr (False, s') \<longrightarrow> scanned n fa v us1 s1 \<longrightarrow>
                           dead_marks n fa s1 s' \<and> DV s' v = \<infinity>"
                by blast
              have er': "\<forall>e. r = Inl e \<longrightarrow> e = RecursionError \<and> depth < card (below n s v)"
                using er cle by auto
              have "dead_marks n fa s s' \<and> DV s' v = \<infinity>"
                if rr: "r = Inr (False, s')" and sc: "scanned n fa v (u # us1) s" for s'
              proof -
                have sc1: "scanned n fa v us1 s1"
                  unfolding scanned_def
                proof (intro ballI)
                  fix x assume x: "x \<in> set (fa ! nat v)"
                  have vx: "vertex n x" using adj_ok_vertex[OF ok v x] .
                  show "x \<in> set us1 \<or>
                     PU s1 x \<noteq> - 1 \<and> \<not> (DV s1 (PU s1 x) = DV s1 v + 1 \<and> augs n fa s1 (PU s1 x))"
                  proof (cases "x \<in> set us1")
                    case True
                    then show ?thesis by simp
                  next
                    case nin: False
                    show ?thesis
                    proof (cases "x = u")
                      case True
                      have "\<not> augs n fa s1 p"
                        using aug_vertex[of n fa "pair_u s1" "dists s1" p] dp1
                        by (auto simp: augs_def DV_def)
                      then show ?thesis using True p same_pairs_PU[OF sp] by simp
                    next
                      case False
                      then have old: "PU s x \<noteq> - 1"
                        "\<not> (DV s (PU s x) = DV s v + 1 \<and> augs n fa s (PU s x))"
                        using sc x nin by (auto simp: scanned_def)
                      have vpx: "vertex n (PU s x)" using I2D[OF i2 vx old(1)] by simp
                      have "\<not> (DV s1 (PU s x) = DV s1 v + 1 \<and> augs n fa s1 (PU s x))"
                      proof
                        assume a: "DV s1 (PU s x) = DV s1 v + 1 \<and> augs n fa s1 (PU s x)"
                        then have "DV s1 (PU s x) < \<infinity>" using dv enat_suc_finite[OF fin] by simp
                        then have "DV s1 (PU s x) = DV s (PU s x)"
                          using fin_keep[OF ch[OF vpx]] by simp
                        moreover have "augs n fa s (PU s x)" using augs_mono[OF sp ch] a by blast
                        ultimately show False using old(2) a dv by simp
                      qed
                      then show ?thesis using old(1) same_pairs_PU[OF sp] by simp
                    qed
                  qed
                qed
                then have dm2: "dead_marks n fa s1 s'" and inf: "DV s' v = \<infinity>"
                  using pp rr by simp_all
                have "dead_marks n fa s s'"
                  unfolding dead_marks_def
                proof (intro allI impI)
                  fix w assume w: "vertex n w \<and> DV s' w \<noteq> DV s w"
                  show "\<not> augs n fa s w"
                  proof (cases "DV s1 w = DV s w")
                    case False
                    then show ?thesis using dm1 w by (simp add: dead_marks_def)
                  next
                    case True
                    then have "\<not> augs n fa s1 w" using dm2 w by (simp add: dead_marks_def)
                    then show ?thesis using augs_keep[OF sp dm1] by blast
                  qed
                qed
                then show ?thesis using inf by simp
              qed
              then show ?thesis using run r er' by simp
            qed
          qed
        qed
      qed
    qed
  qed
qed


lemma below_card:
  assumes "vertex n v"
  shows "card (below n s v) < n"
proof -
  have eq: "{w. vertex n w} = {0..<int n}" by (auto simp: vertex_def)
  have "below n s v \<subset> {w. vertex n w}"
  proof
    show "below n s v \<subseteq> {w. vertex n w}" by (auto simp: below_def)
    have "v \<notin> below n s v" by (simp add: below_def)
    then show "below n s v \<noteq> {w. vertex n w}" using assms by blast
  qed
  then have "card (below n s v) < card {w. vertex n w}"
    using finite_vertices by (rule psubset_card_mono[rotated])
  then show ?thesis unfolding eq by simp
qed

lemma dfs_total:
  assumes inv: "phase_inv n fa s" and u: "vertex n u" "DV s u = 0"
  shows "\<exists>r. dfs limit fa u s = Some r \<and>
           (\<forall>e. r = Inl e \<longrightarrow> e = RecursionError \<and> limit < n) \<and>
           (\<forall>s1. r = Inr (False, s1) \<longrightarrow>
                 same_pairs s s1 \<and> dead_marks n fa s s1 \<and> DV s1 u = \<infinity>)"
proof (cases "limit = 0")
  case True
  have "0 < n" using u(1) by (simp add: vertex_def)
  then show ?thesis using True by (simp add: dfs_def)
next
  case False
  have ok: "adj_ok n fa" and l: "lens n s" and i1: "I1 n fa s" and i2: "I2x n s (- 1)"
    using inv by (simp_all add: phase_inv_def)
  have g: "py_get fa u = Inr (fa ! nat u)" using ok u(1) by (simp add: py_get_vertex adj_ok_def)
  have pre: "dfs_pre n fa u (fa ! nat u) s"
    using ok l i1 i2 u by (simp add: dfs_pre_def)
  have sc: "scanned n fa u (fa ! nat u) s" by (simp add: scanned_def)
  from dfs_loop_total_aux[OF lessI pre, of "limit - 1"]
  obtain r where r: "dfs_loop (limit - 1) fa u (fa ! nat u) s = Some r"
    and er: "\<forall>e. r = Inl e \<longrightarrow> e = RecursionError \<and> limit - 1 < card (below n s u)"
    and p: "\<forall>s1. r = Inr (False, s1) \<longrightarrow> dead_marks n fa s s1 \<and> DV s1 u = \<infinity>"
    using sc by blast
  have run: "dfs limit fa u s = Some r" using g r False by (simp add: dfs_def)
  have er': "\<forall>e. r = Inl e \<longrightarrow> e = RecursionError \<and> limit < n"
    using er below_card[OF u(1), of s] by auto
  have sp: "same_pairs s s1" if "r = Inr (False, s1)" for s1
  proof -
    have "dfs_post n fa u s (Inr (False, s1))" using dfs_loop_post[OF r pre] that by simp
    then show ?thesis by (simp add: dfs_post_def)
  qed
  show ?thesis using run er' p sp by blast
qed

lemma dfs_all_total:
  assumes "phase_inv n fa s" "\<forall>u\<in>set us. vertex n u" "distinct us"
    "\<forall>u\<in>set us. PV s u = - 1 \<longrightarrow> DV s u = 0"
  shows "\<exists>r. dfs_all limit fa us s = Some r \<and>
           (\<forall>e. r = Inl e \<longrightarrow> e = RecursionError \<and> limit < n) \<and>
           (\<forall>s'. r = Inr s' \<longrightarrow> (\<exists>x\<in>set us. PV s x = - 1 \<and> augs n fa s x) \<longrightarrow>
                 (\<exists>w. vertex n w \<and> PV s w = - 1 \<and> PV s' w \<noteq> - 1))"
  using assms
proof (induction us arbitrary: s)
  case Nil
  then show ?case by simp
next
  case (Cons u us)
  have u: "vertex n u" and usv: "\<forall>u\<in>set us. vertex n u" using Cons.prems(2) by simp_all
  have du: "distinct us" and nin: "u \<notin> set us" using Cons.prems(3) by simp_all
  have l: "lens n s" using Cons.prems(1) by (simp add: phase_inv_def)
  have g: "py_get (pair_v s) u = Inr (PV s u)"
    using l u by (simp add: py_get_vertex lens_def PV_def)
  show ?case
  proof (cases "PV s u = - 1")
    case False
    have z: "\<forall>u\<in>set us. PV s u = - 1 \<longrightarrow> DV s u = 0" using Cons.prems(4) by simp
    from Cons.IH[OF Cons.prems(1) usv du z]
    obtain r where r: "dfs_all limit fa us s = Some r"
      and er: "\<forall>e. r = Inl e \<longrightarrow> e = RecursionError \<and> limit < n"
      and p: "\<forall>s'. r = Inr s' \<longrightarrow> (\<exists>x\<in>set us. PV s x = - 1 \<and> augs n fa s x) \<longrightarrow>
              (\<exists>w. vertex n w \<and> PV s w = - 1 \<and> PV s' w \<noteq> - 1)"
      by blast
    have "dfs_all limit fa (u # us) s = Some r" using g False r by simp
    moreover have "\<forall>s'. r = Inr s' \<longrightarrow> (\<exists>x\<in>set (u # us). PV s x = - 1 \<and> augs n fa s x) \<longrightarrow>
              (\<exists>w. vertex n w \<and> PV s w = - 1 \<and> PV s' w \<noteq> - 1)"
      using p False by auto
    ultimately show ?thesis using er by blast
  next
    case True
    then have d0: "DV s u = 0" using Cons.prems(4) by simp
    from dfs_total[OF Cons.prems(1) u d0, of limit]
    obtain r1 where run: "dfs limit fa u s = Some r1"
      and er1: "\<forall>e. r1 = Inl e \<longrightarrow> e = RecursionError \<and> limit < n"
      and fail: "\<forall>s1. r1 = Inr (False, s1) \<longrightarrow>
                   same_pairs s s1 \<and> dead_marks n fa s s1 \<and> DV s1 u = \<infinity>"
      by blast
    show ?thesis
    proof (cases r1)
      case (Inl e)
      then have "dfs_all limit fa (u # us) s = Some (Inl e)" using g True run by simp
      then show ?thesis using er1 Inl by simp
    next
      case (Inr bs)
      obtain b s1 where bs: "bs = (b, s1)" by (cases bs)
      have run': "dfs limit fa u s = Some (Inr (b, s1))" using run Inr bs by simp
      from dfs_top[OF Cons.prems(1) u True d0 run']
      have inv1: "phase_inv n fa s1" and dc: "dchange n u s s1" and k: "keeps n s s1"
        and f: "\<And>w. vertex n w \<Longrightarrow> w \<noteq> u \<Longrightarrow> DV s w \<le> 0 \<Longrightarrow> PV s1 w = PV s w"
        and su: "b \<longrightarrow> PV s1 u \<noteq> - 1"
        by simp_all
      have free1: "\<forall>w\<in>set us. PV s1 w = - 1 \<longrightarrow> DV s1 w = 0"
      proof (intro ballI impI)
        fix w assume w: "w \<in> set us" "PV s1 w = - 1"
        then have wv: "vertex n w" and wu: "w \<noteq> u" using usv nin by auto
        have "PV s w = - 1"
        proof (rule ccontr)
          assume "PV s w \<noteq> - 1"
          then have "PV s1 w \<noteq> - 1" using k wv by (simp add: keeps_def)
          then show False using w(2) by simp
        qed
        then have z: "DV s w = 0" using Cons.prems(4) w(1) by simp
        show "DV s1 w = 0"
        proof (rule ccontr)
          assume "DV s1 w \<noteq> 0"
          then have "DV s1 w \<noteq> DV s w" using z by simp
          from dchangeD[OF dc wv this] show False using wu z d0 by simp
        qed
      qed
      from Cons.IH[OF inv1 usv du free1]
      obtain r where r: "dfs_all limit fa us s1 = Some r"
        and er: "\<forall>e. r = Inl e \<longrightarrow> e = RecursionError \<and> limit < n"
        and p: "\<forall>s'. r = Inr s' \<longrightarrow> (\<exists>x\<in>set us. PV s1 x = - 1 \<and> augs n fa s1 x) \<longrightarrow>
                (\<exists>w. vertex n w \<and> PV s1 w = - 1 \<and> PV s' w \<noteq> - 1)"
        by blast
      have run_all: "dfs_all limit fa (u # us) s = Some r" using g True run' r by simp
      have "\<exists>w. vertex n w \<and> PV s w = - 1 \<and> PV s' w \<noteq> - 1"
        if rr: "r = Inr s'" and ex: "\<exists>x\<in>set (u # us). PV s x = - 1 \<and> augs n fa s x" for s'
      proof (cases b)
        case True
        have k1: "keeps n s1 s'"
          using dfs_all_inv[OF r[unfolded rr] inv1 usv du free1] by simp
        have "PV s1 u \<noteq> - 1" using su True by simp
        then have "PV s' u \<noteq> - 1" using k1 u by (simp add: keeps_def)
        then show ?thesis using u \<open>PV s u = - 1\<close> by blast
      next
        case False
        then have sp: "same_pairs s s1" and dm: "dead_marks n fa s s1" and inf: "DV s1 u = \<infinity>"
          using fail Inr bs by simp_all
        have "DV s1 u \<noteq> DV s u" using inf d0 by simp
        then have nu: "\<not> augs n fa s u" using dm u by (simp add: dead_marks_def)
        from ex obtain x where xx: "x \<in> set (u # us)" "PV s x = - 1" "augs n fa s x" by blast
        then have "x \<noteq> u" using nu by blast
        then have "x \<in> set us" using xx(1) by simp
        moreover have "PV s1 x = - 1" using xx(2) same_pairs_PV[OF sp] by simp
        moreover have "augs n fa s1 x" using augs_keep[OF sp dm xx(3)] .
        ultimately obtain w where "vertex n w" "PV s1 w = - 1" "PV s' w \<noteq> - 1"
          using p rr by blast
        then show ?thesis using same_pairs_PV[OF sp] by auto
      qed
      then show ?thesis using run_all er by blast
    qed
  qed
qed

lemma finite_frees: "finite (frees n s)"
  using finite_vertices[of n] by (simp add: frees_def)

lemma phases_total:
  assumes ok: "adj_ok n fa" and left: "\<forall>v\<in>set left. vertex n v" "distinct left"
    and inv: "phase_inv n fa s"
  shows "\<exists>r. phases limit fa left s = Some r \<and>
           (\<forall>e. r = Inl e \<longrightarrow> e = RecursionError \<and> limit < n)"
  using inv
proof (induction "card (frees n s)" arbitrary: s rule: less_induct)
  case less
  have l: "lens n s" using less.prems by (simp add: phase_inv_def)
  from bfs_total[OF less.prems left(1)]
  obtain found s1 where b: "bfs fa left s = Some (Inr (found, s1))"
    and root: "found \<longrightarrow> (\<exists>r\<in>set left. PV s r = - 1 \<and> augs n fa s1 r)"
    by blast
  from bfs_post[OF b l left(1)]
  have l1: "lens n s1" and sp: "same_pairs s s1"
    and z: "\<forall>w\<in>set left. PV s w = - 1 \<longrightarrow> DV s1 w = 0" by simp_all
  have inv1: "phase_inv n fa s1"
    using less.prems l1 same_pairs_I1[OF sp] same_pairs_I2x[OF sp] by (simp add: phase_inv_def)
  show ?case
  proof (cases found)
    case False
    then have "phases limit fa left s = Some (Inr s1)"
      using b by (simp add: phases.simps[of limit fa left s])
    then show ?thesis by simp
  next
    case True
    have z1: "\<forall>w\<in>set left. PV s1 w = - 1 \<longrightarrow> DV s1 w = 0"
      using z same_pairs_PV[OF sp] by simp
    have r1: "\<exists>r\<in>set left. PV s1 r = - 1 \<and> augs n fa s1 r"
      using root True same_pairs_PV[OF sp] by simp
    from dfs_all_total[OF inv1 left z1, of limit]
    obtain ra where da: "dfs_all limit fa left s1 = Some ra"
      and era: "\<forall>e. ra = Inl e \<longrightarrow> e = RecursionError \<and> limit < n"
      and new: "\<forall>s2. ra = Inr s2 \<longrightarrow> (\<exists>w. vertex n w \<and> PV s1 w = - 1 \<and> PV s2 w \<noteq> - 1)"
      using r1 by blast
    show ?thesis
    proof (cases ra)
      case (Inl e)
      then have "phases limit fa left s = Some (Inl e)"
        using b True da by (simp add: phases.simps[of limit fa left s])
      then show ?thesis using era Inl by simp
    next
      case (Inr s2)
      have da': "dfs_all limit fa left s1 = Some (Inr s2)" using da Inr by simp
      from dfs_all_inv[OF da' inv1 left z1]
      have inv2: "phase_inv n fa s2" and k2: "keeps n s1 s2" by simp_all
      have "frees n s2 \<subset> frees n s"
      proof
        show "frees n s2 \<subseteq> frees n s"
        proof
          fix w assume "w \<in> frees n s2"
          then have w: "vertex n w" "PV s2 w = - 1" by (simp_all add: frees_def)
          have "PV s1 w = - 1"
          proof (rule ccontr)
            assume "PV s1 w \<noteq> - 1"
            then have "PV s2 w \<noteq> - 1" using k2 w(1) by (simp add: keeps_def)
            then show False using w(2) by simp
          qed
          then show "w \<in> frees n s" using w(1) same_pairs_PV[OF sp] by (simp add: frees_def)
        qed
        from new Inr obtain w where w: "vertex n w" "PV s1 w = - 1" "PV s2 w \<noteq> - 1" by blast
        then have "w \<in> frees n s" "w \<notin> frees n s2"
          using same_pairs_PV[OF sp] by (simp_all add: frees_def)
        then show "frees n s2 \<noteq> frees n s" by blast
      qed
      then have "card (frees n s2) < card (frees n s)"
        using finite_frees by (rule psubset_card_mono[rotated])
      from less.hyps[OF this inv2] obtain r where r: "phases limit fa left s2 = Some r"
        and er: "\<forall>e. r = Inl e \<longrightarrow> e = RecursionError \<and> limit < n" by blast
      have "phases limit fa left s = Some r"
        using b True da' r by (simp add: phases.simps[of limit fa left s])
      then show ?thesis using er by blast
    qed
  qed
qed

lemma build_forward_total:
  assumes "adj_ok n fa0" "\<forall>(u, v)\<in>set edges. vertex n u \<and> vertex n v"
  shows "\<exists>fa. build_forward fa0 left edges = Inr fa"
  using assms
proof (induction edges arbitrary: fa0)
  case Nil
  then show ?case by simp
next
  case (Cons e es)
  obtain u v where e: "e = (u, v)" by (cases e)
  have uv: "vertex n u" "vertex n v" using Cons.prems(2) e by auto
  have rest: "\<forall>(u, v)\<in>set es. vertex n u \<and> vertex n v" using Cons.prems(2) by simp
  have l0: "length fa0 = n" using Cons.prems(1) by (simp add: adj_ok_def)
  have s1: "append_at fa0 u v = Inr (fa0[nat u := fa0 ! nat u @ [v]])"
    using append_at_vertex[of fa0 u v] uv l0 by simp
  have s2: "append_at fa0 v u = Inr (fa0[nat v := fa0 ! nat v @ [u]])"
    using append_at_vertex[of fa0 v u] uv l0 by simp
  show ?case
  proof (cases "u \<in> set left")
    case True
    from Cons.IH[OF adj_ok_append[OF Cons.prems(1) uv] rest]
    show ?thesis using e True s1 by simp
  next
    case False
    show ?thesis
    proof (cases "v \<in> set left")
      case True
      from Cons.IH[OF adj_ok_append[OF Cons.prems(1) uv(2,1)] rest]
      show ?thesis using e False True s2 by simp
    next
      case nv: False
      from Cons.IH[OF Cons.prems(1) rest] show ?thesis using e False nv by simp
    qed
  qed
qed

lemma hopcroft_karp_total:
  assumes left: "\<forall>v\<in>set left. vertex n v" "distinct left"
    and edges: "\<forall>(u, v)\<in>set edges. vertex n u \<and> vertex n v \<and> \<not> (u \<in> set left \<and> v \<in> set left)"
  shows "\<exists>r. hopcroft_karp limit (int n) edges left = Some r \<and>
           (\<forall>e. r = Inl e \<longrightarrow> e = RecursionError \<and> limit < n)"
proof -
  have ev: "\<forall>(u, v)\<in>set edges. vertex n u \<and> vertex n v" using edges by auto
  have ok0: "adj_ok n (map (\<lambda>_. []) (py_range 0 (int n)))" using empty_adj_ok by simp
  from build_forward_total[OF ok0 ev] obtain fa where
    bf: "build_forward (map (\<lambda>_. []) (py_range 0 (int n))) left edges = Inr fa" by blast
  have fa: "adj_ok n fa"
    using build_forward_post[OF bf _ _ edges] empty_adj_ok by simp
  define s0 where "s0 = \<lparr>pair_v = py_replicate (int n) (- 1),
                          pair_u = py_replicate (int n) (- 1),
                          dists = py_replicate (int n) (\<infinity> :: enat)\<rparr>"
  have inv0: "phase_inv n fa s0" unfolding s0_def by (rule initial_inv[OF fa])
  from phases_total[OF fa left inv0, of limit] obtain r where
    ph: "phases limit fa left s0 = Some r"
    and er: "\<forall>e. r = Inl e \<longrightarrow> e = RecursionError \<and> limit < n"
    by blast
  show ?thesis
  proof (cases r)
    case (Inl e)
    then have "hopcroft_karp limit (int n) edges left = Some (Inl e)"
      using bf ph by (simp add: hopcroft_karp_def s0_def)
    then show ?thesis using er Inl by simp
  next
    case (Inr s)
    have ph': "phases limit fa left s0 = Some (Inr s)" using ph Inr by simp
    have inv: "phase_inv n fa s" using phases_inv[OF ph' inv0 left] by simp
    then have "length (pair_v s) = n" by (simp add: phase_inv_def lens_def)
    from collect_matching_eq[OF this left(1)]
    obtain m where "collect_matching (pair_v s) left = Inr m" by simp
    then have "hopcroft_karp limit (int n) edges left = Some (Inr m)"
      using bf ph' by (simp add: hopcroft_karp_def s0_def)
    then show ?thesis by simp
  qed
qed

lemma solve_matching_total_nat:
  assumes edges: "\<forall>(u, v)\<in>set edges. vertex n u \<and> vertex n v"
    and order: "\<forall>xs. distinct xs \<longrightarrow> distinct (set_order xs) \<and> set (set_order xs) = set xs"
  shows "\<exists>r. solve_matching set_order limit (int n) edges = Some r \<and>
           (\<forall>e. r = Inl e \<longrightarrow> e = RecursionError \<and> limit < n)"
proof -
  from check_bipartite_total[OF edges] obtain b colors where
    cb: "check_bipartite (int n) edges = Some (Inr (b, colors))" by auto
  show ?thesis
  proof (cases b)
    case False
    then have "solve_matching set_order limit (int n) edges = Some (Inr (False, []))"
      using cb by (simp add: solve_matching_def)
    then show ?thesis by simp
  next
    case True
    define left where "left = set_order (zero_coloured colors)"
    have cbT: "check_bipartite (int n) edges = Some (Inr (True, colors))" using cb True by simp
    from check_bipartite_sound[OF cbT edges]
    have len: "length colors = n" and diff: "\<forall>(u, v)\<in>set edges. CV colors u \<noteq> CV colors v"
      by simp_all
    have l: "distinct left" "set left = {i. vertex n i \<and> CV colors i = 0}"
      using order zero_coloured_distinct[of colors] zero_coloured_set[of colors] len
      by (simp_all add: left_def)
    have lv: "\<forall>v\<in>set left. vertex n v" using l(2) by simp
    have e: "\<forall>(u, v)\<in>set edges. vertex n u \<and> vertex n v \<and> \<not> (u \<in> set left \<and> v \<in> set left)"
      using edges diff l(2) by fastforce
    from hopcroft_karp_total[OF lv l(1) e, of limit] obtain r where
      hk: "hopcroft_karp limit (int n) edges left = Some r"
      and er: "\<forall>e. r = Inl e \<longrightarrow> e = RecursionError \<and> limit < n" by blast
    show ?thesis
    proof (cases r)
      case (Inl e)
      then have "solve_matching set_order limit (int n) edges = Some (Inl e)"
        using cbT hk by (simp add: solve_matching_def left_def)
      then show ?thesis using er Inl by simp
    next
      case (Inr m)
      then have "solve_matching set_order limit (int n) edges = Some (Inr (True, m))"
        using cbT hk by (simp add: solve_matching_def left_def)
      then show ?thesis by simp
    qed
  qed
qed

text \<open>
  Claim C8. For every input \<open>(n, edges)\<close> whose edges join vertices of \<open>[0, n)\<close>, every
  order in which the set \<open>left_partition\<close> may be iterated and every number \<open>limit\<close> of
  nested calls of \<open>dfs\<close> that the interpreter allows, \<open>solve_matching\<close> ends. It ends with
  an exception only if \<open>limit < n\<close>, and then the exception is the \<open>RecursionError\<close> of a
  call of \<open>dfs\<close>. Otherwise it returns, and in the matching it returns no vertex appears
  in more than one pair: the first components are pairwise distinct, the second
  components are pairwise distinct, and no vertex is the first component of one pair and
  the second of another.
\<close>

theorem solve_matching_pairs_disjoint:
  assumes "\<forall>(u, v)\<in>set edges. 0 \<le> u \<and> u < n \<and> 0 \<le> v \<and> v < n"
    and "\<forall>xs. distinct xs \<longrightarrow> distinct (set_order xs) \<and> set (set_order xs) = set xs"
  shows "\<exists>r. solve_matching set_order limit n edges = Some r \<and>
           (case r of
              Inl e \<Rightarrow> e = RecursionError \<and> int limit < n
            | Inr (b, matching) \<Rightarrow> distinct (map fst matching @ map snd matching))"
proof -
  define k where "k = (if 0 \<le> n then nat n else 0)"
  have e: "\<forall>(u, v)\<in>set edges. vertex k u \<and> vertex k v"
  proof (cases "0 \<le> n")
    case True
    then show ?thesis using assms(1) by (auto simp: vertex_def k_def)
  next
    case False
    then have "edges = []" using assms(1) by (cases edges) auto
    then show ?thesis by simp
  qed
  have same: "solve_matching set_order limit n edges = solve_matching set_order limit (int k) edges"
  proof (cases "0 \<le> n")
    case True
    then show ?thesis by (simp add: k_def)
  next
    case False
    then show ?thesis using solve_matching_neg[of n set_order limit edges] by (simp add: k_def)
  qed
  have kn: "int limit < int k \<Longrightarrow> int limit < n" by (simp add: k_def split: if_splits)
  from solve_matching_total_nat[OF e assms(2), of limit] obtain r where
    run: "solve_matching set_order limit (int k) edges = Some r"
    and er: "\<forall>e. r = Inl e \<longrightarrow> e = RecursionError \<and> limit < k" by blast
  have "case r of
          Inl e \<Rightarrow> e = RecursionError \<and> int limit < n
        | Inr (b, matching) \<Rightarrow> distinct (map fst matching @ map snd matching)"
  proof (cases r)
    case (Inl e)
    then show ?thesis using er kn by simp
  next
    case (Inr bm)
    obtain b matching where bm: "bm = (b, matching)" by (cases bm)
    have "solve_matching set_order limit (int k) edges = Some (Inr (b, matching))"
      using run Inr bm by simp
    from solve_matching_nat[OF e assms(2) this] show ?thesis using Inr bm by simp
  qed
  then show ?thesis using run same by simp
qed

theorem solve_matching_pairs_disjoint_witness:
  "(\<exists>r. solve_matching (\<lambda>xs. xs) 1000 4 [(0, 1), (1, 2), (2, 3), (3, 0)] = Some r \<and>
        (case r of
           Inl e \<Rightarrow> e = RecursionError \<and> int 1000 < 4
         | Inr (b, matching) \<Rightarrow> distinct (map fst matching @ map snd matching))) \<and>
   solve_matching (\<lambda>xs. xs) 1000 4 [(0, 1), (1, 2), (2, 3), (3, 0)] =
     Some (Inr (True, [(0, 1), (2, 3)])) \<and>
   solve_matching (\<lambda>xs. xs) 2 4 [(0, 1), (0, 3), (2, 1)] =
     Some (Inr (True, [(0, 3), (2, 1)])) \<and>
   solve_matching (\<lambda>xs. xs) 1 4 [(0, 1), (0, 3), (2, 1)] = Some (Inl RecursionError)"
proof -
  have r: "solve_matching (\<lambda>xs. xs) 1000 4 [(0, 1), (1, 2), (2, 3), (3, 0)] =
           Some (Inr (True, [(0, 1), (2, 3)]))"
    by code_simp
  have r2: "solve_matching (\<lambda>xs. xs) 2 4 [(0, 1), (0, 3), (2, 1)] =
            Some (Inr (True, [(0, 3), (2, 1)]))"
    by code_simp
  have r1: "solve_matching (\<lambda>xs. xs) 1 4 [(0, 1), (0, 3), (2, 1)] = Some (Inl RecursionError)"
    by code_simp
  have e: "\<forall>(u, v)\<in>set [(0, 1), (1, 2), (2, 3), (3, 0 :: int)].
             0 \<le> u \<and> u < (4 :: int) \<and> 0 \<le> v \<and> v < 4"
    by simp
  have o: "\<forall>xs :: int list. distinct xs \<longrightarrow> distinct ((\<lambda>xs. xs) xs) \<and> set ((\<lambda>xs. xs) xs) = set xs"
    by simp
  from solve_matching_pairs_disjoint[OF e o, of 1000] r r2 r1 show ?thesis by simp
qed


end
